theory Spec2Isabelle
  imports Main "HOL-Library.Sublist"
begin

section \<open>JavaScript values and the object heap\<close>

text \<open>
  \<open>Diff.js\<close> compares arbitrary JavaScript values. Objects have identity (the cycle
  check of \<open>deepDiff\<close> compares references with \<open>===\<close>) and are mutated in place
  (\<open>sort\<close> in \<open>deepDiff\<close>, assignments and \<open>delete\<close> in \<open>revertChange\<close>), so an
  object is an address into an explicit heap. The code inspects a number only for
  truthiness, strict equality and NaN-ness (and subtracts the time values of two dates),
  so a number is NaN or an integer.
\<close>

datatype number = NaN | Num int

datatype val = VUndef | VNull | VBool bool | VNum number | VStr string | VRef nat

text \<open>
  The own enumerable properties of a plain object are kept in enumeration order (the order
  of \<open>Object.keys\<close>). A date holds its time value (NaN for an invalid date), a regular
  expression its canonical string form (the result of \<open>toString\<close>). Array holes and extra
  named properties on arrays, dates and regular expressions are outside the model; of the
  prototype chain the model has what \<open>revertChange\<close> can meet (see there).
\<close>

datatype obj = Plain "(string \<times> val) list" | Arr "val list" | Date number | RegExp string

type_synonym heap = "obj list"

definition lookup :: "heap \<Rightarrow> nat \<Rightarrow> obj option" where
  "lookup h a = (if a < length h then Some (h ! a) else None)"

subsection \<open>Primitive operations of the language\<close>

text \<open>\<open>!!v\<close>\<close>

fun truthy :: "val \<Rightarrow> bool" where
  "truthy VUndef = False"
| "truthy VNull = False"
| "truthy (VBool b) = b"
| "truthy (VNum NaN) = False"
| "truthy (VNum (Num n)) = (n \<noteq> 0)"
| "truthy (VStr s) = (s \<noteq> [])"
| "truthy (VRef a) = True"

text \<open>\<open>v === w\<close>: NaN is not equal to itself, objects are equal when they are the same object.\<close>

definition strictEq :: "val \<Rightarrow> val \<Rightarrow> bool" where
  "strictEq v w = (v = w \<and> v \<noteq> VNum NaN)"

text \<open>\<open>typeof v === 'object'\<close> (true of \<open>null\<close> as well)\<close>

fun typeofObject :: "val \<Rightarrow> bool" where
  "typeofObject VNull = True"
| "typeofObject (VRef a) = True"
| "typeofObject v = False"

text \<open>\<open>typeof v === 'number' && Number.isNaN(v)\<close>\<close>

definition isNaN :: "val \<Rightarrow> bool" where
  "isNaN v = (v = VNum NaN)"

text \<open>\<open>n.toString()\<close> for an array index\<close>

definition digit :: "nat \<Rightarrow> char" where
  "digit d = ''0123456789'' ! d"

function showNat :: "nat \<Rightarrow> string" where
  "showNat n = (if n < 10 then [digit n] else showNat (n div 10) @ [digit (n mod 10)])"
  by pat_completeness auto
termination
  by (relation "measure id") auto

declare showNat.simps [simp del]

definition indexKeys :: "nat \<Rightarrow> string list" where
  "indexKeys n = map showNat [0..<n]"

text \<open>\<open>Array.isArray(v)\<close>\<close>

definition isArray :: "heap \<Rightarrow> val \<Rightarrow> bool" where
  "isArray h v = (case v of VRef a \<Rightarrow> (case lookup h a of Some (Arr xs) \<Rightarrow> True | _ \<Rightarrow> False)
                   | _ \<Rightarrow> False)"

text \<open>The elements of an array (\<open>v.length\<close> is their number, \<open>v[i]\<close> reads one).\<close>

definition elems :: "heap \<Rightarrow> val \<Rightarrow> val list" where
  "elems h v = (case v of VRef a \<Rightarrow> (case lookup h a of Some (Arr xs) \<Rightarrow> xs | _ \<Rightarrow> [])
                 | _ \<Rightarrow> [])"

text \<open>\<open>xs[i]\<close>: reading past the end of an array gives \<open>undefined\<close>.\<close>

definition at :: "val list \<Rightarrow> nat \<Rightarrow> val" where
  "at xs i = (if i < length xs then xs ! i else VUndef)"

text \<open>\<open>Object.keys(v)\<close> of an object\<close>

definition keys :: "heap \<Rightarrow> val \<Rightarrow> string list" where
  "keys h v = (case v of
      VRef a \<Rightarrow> (case lookup h a of
          Some (Plain ps) \<Rightarrow> map fst ps
        | Some (Arr xs) \<Rightarrow> indexKeys (length xs)
        | _ \<Rightarrow> [])
    | _ \<Rightarrow> [])"

text \<open>
  The own property \<open>k\<close> of \<open>v\<close>, \<open>undefined\<close> when \<open>v\<close> has none. This is \<open>v[k]\<close> wherever
  \<open>deepDiff\<close> reads a property: under a key that \<open>Object.keys\<close> gave, and under an index
  below the length of an array.
\<close>

definition getProp :: "heap \<Rightarrow> val \<Rightarrow> string \<Rightarrow> val" where
  "getProp h v k = (case v of
      VRef a \<Rightarrow> (case lookup h a of
          Some (Plain ps) \<Rightarrow> (case map_of ps k of Some w \<Rightarrow> w | None \<Rightarrow> VUndef)
        | Some (Arr xs) \<Rightarrow>
            (case find (\<lambda>i. showNat i = k) [0..<length xs] of
               Some i \<Rightarrow> xs ! i
             | None \<Rightarrow> if k = ''length'' then VNum (Num (int (length xs))) else VUndef)
        | _ \<Rightarrow> VUndef)
    | VStr s \<Rightarrow>
        (case find (\<lambda>i. showNat i = k) [0..<length s] of
           Some i \<Rightarrow> VStr [s ! i]
         | None \<Rightarrow> if k = ''length'' then VNum (Num (int (length s))) else VUndef)
    | _ \<Rightarrow> VUndef)"

text \<open>
  \<open>Object.getOwnPropertyDescriptor(v, k)\<close> is truthy: \<open>v\<close> has an own property \<open>k\<close>.
  The code calls it on truthy values only.
\<close>

definition hasOwn :: "heap \<Rightarrow> val \<Rightarrow> string \<Rightarrow> bool" where
  "hasOwn h v k = (case v of
      VRef a \<Rightarrow> (case lookup h a of
          Some (Plain ps) \<Rightarrow> k \<in> set (map fst ps)
        | Some (Arr xs) \<Rightarrow> k \<in> set (indexKeys (length xs)) \<or> k = ''length''
        | Some (RegExp s) \<Rightarrow> k = ''lastIndex''
        | _ \<Rightarrow> False)
    | VStr s \<Rightarrow> k \<in> set (indexKeys (length s)) \<or> k = ''length''
    | _ \<Rightarrow> False)"

text \<open>A property key that is \<open>undefined\<close> is read as the string \<open>"undefined"\<close>.\<close>

definition keyString :: "string option \<Rightarrow> string" where
  "keyString key = (case key of None \<Rightarrow> ''undefined'' | Some k \<Rightarrow> k)"

text \<open>\<open>if (key)\<close>: the key is there and not the empty string.\<close>

definition keyTruthy :: "string option \<Rightarrow> bool" where
  "keyTruthy key = (case key of None \<Rightarrow> False | Some k \<Rightarrow> k \<noteq> [])"

text \<open>\<open>v.toString()\<close> of a regular expression.\<close>

definition regexpToString :: "heap \<Rightarrow> val \<Rightarrow> val" where
  "regexpToString h v = (case v of
      VRef a \<Rightarrow> (case lookup h a of Some (RegExp s) \<Rightarrow> VStr s | _ \<Rightarrow> v)
    | _ \<Rightarrow> v)"

text \<open>\<open>lhs - rhs !== 0\<close> for two dates: the difference of two time values is NaN when one
  of them is, and NaN is not \<open>0\<close>.\<close>

definition timeValue :: "heap \<Rightarrow> val \<Rightarrow> number" where
  "timeValue h v = (case v of
      VRef a \<Rightarrow> (case lookup h a of Some (Date t) \<Rightarrow> t | _ \<Rightarrow> NaN)
    | _ \<Rightarrow> NaN)"

definition minusNonZero :: "number \<Rightarrow> number \<Rightarrow> bool" where
  "minusNonZero s t = (case (s, t) of (Num a, Num b) \<Rightarrow> a - b \<noteq> 0 | _ \<Rightarrow> True)"

subsection \<open>The type classifier\<close>

text \<open>
  Modelled from the spec: \<open>realTypeOf\<close> is imported from \<open>./utils\<close>, which is not part of
  the sources at hand. The spec describes it as the type classifier that, given any value,
  returns a canonical type tag (e.g. "array", "object", "date", "regexp", "number", "null",
  "undefined", "nan", ...).
\<close>

definition realTypeOf :: "heap \<Rightarrow> val \<Rightarrow> string" where
  "realTypeOf h v = (case v of
      VUndef \<Rightarrow> ''undefined''
    | VNull \<Rightarrow> ''null''
    | VBool b \<Rightarrow> ''boolean''
    | VNum NaN \<Rightarrow> ''nan''
    | VNum (Num n) \<Rightarrow> ''number''
    | VStr s \<Rightarrow> ''string''
    | VRef a \<Rightarrow> (case lookup h a of
          Some (Arr xs) \<Rightarrow> ''array''
        | Some (Date t) \<Rightarrow> ''date''
        | Some (RegExp s) \<Rightarrow> ''regexp''
        | _ \<Rightarrow> ''object''))"

section \<open>Change records\<close>

text \<open>
  \<open>deepDiff\<close> pushes objects \<open>{k: 'N', p, r}\<close>, \<open>{k: 'D', p, l}\<close>, \<open>{k: 'E', p, l, r}\<close>
  and \<open>{k: 'A', p, i, it}\<close>, where \<open>it\<close> is \<open>{k: 'N', r}\<close> or \<open>{k: 'D', l}\<close>.
\<close>

type_synonym path = "string list"

datatype rawItem = ItemN val | ItemD val

datatype rawChange =
    RawN path val
  | RawD path val
  | RawE path val val
  | RawA path nat rawItem

section \<open>deepDiff\<close>

datatype frame = Frame (frame_lhs: val) (frame_rhs: val)

record opts =
  prefilter :: "(path \<Rightarrow> string \<Rightarrow> bool) option"
  orderIndependent :: bool

text \<open>
  \<open>getOrderIndependentHash\<close> is imported from \<open>./utils\<close> as well; it is a parameter
  \<open>hash\<close> of the model, a function of the heap and the value. \<open>xs.sort((a, b) => hash(a) -
  hash(b))\<close> sorts \<open>xs\<close> in place: the elements that are \<open>undefined\<close> go to the end
  without a call of the comparator, and the others are sorted by that key, stably.
\<close>

definition sortArray :: "(heap \<Rightarrow> val \<Rightarrow> int) \<Rightarrow> heap \<Rightarrow> val \<Rightarrow> heap" where
  "sortArray hash h v = (case v of
      VRef a \<Rightarrow> (case lookup h a of
          Some (Arr xs) \<Rightarrow>
            h[a := Arr (sort_key (hash h) (filter (\<lambda>x. x \<noteq> VUndef) xs) @
                        filter (\<lambda>x. x = VUndef) xs)]
        | _ \<Rightarrow> h)
    | _ \<Rightarrow> h)"

text \<open>\<open>prefilter && prefilter(currentPath, key)\<close>\<close>

definition prefiltered :: "opts \<Rightarrow> path \<Rightarrow> string \<Rightarrow> bool" where
  "prefiltered opt p k = (case prefilter opt of None \<Rightarrow> False | Some f \<Rightarrow> f p k)"

text \<open>
  \<open>ldefined\<close> and \<open>rdefined\<close>: the value is truthy, or the stack is not empty, the member
  of its last frame on that side is truthy and has an own property \<open>key\<close>.
\<close>

definition defined :: "heap \<Rightarrow> val \<Rightarrow> val list \<Rightarrow> string option \<Rightarrow> bool" where
  "defined h v side key =
     (truthy v \<or> (side \<noteq> [] \<and> truthy (last side) \<and> hasOwn h (last side) (keyString key)))"

text \<open>The cycle check: some frame of the stack has the current left value as its \<open>lhs\<close>.\<close>

definition onStack :: "frame list \<Rightarrow> val \<Rightarrow> bool" where
  "onStack stack v = (\<exists>f \<in> set stack. strictEq (frame_lhs f) v)"

text \<open>
  \<open>while (i > j) changes.push({k: 'A', p, i, it: {k: 'N', r: rhs[i--]}})\<close> and its mirror
  image for \<open>j > i\<close>. The counters are one more than the source's \<open>i\<close> and \<open>j\<close>, which
  start at \<open>length - 1\<close> and may reach \<open>-1\<close>.
\<close>

fun tailNew :: "path \<Rightarrow> val list \<Rightarrow> nat \<Rightarrow> nat \<Rightarrow> rawChange list" where
  "tailNew p ys 0 j = []"
| "tailNew p ys (Suc i) j =
     (if Suc i > j then RawA p i (ItemN (at ys i)) # tailNew p ys i j else [])"

fun tailDeleted :: "path \<Rightarrow> val list \<Rightarrow> nat \<Rightarrow> nat \<Rightarrow> rawChange list" where
  "tailDeleted p xs 0 i = []"
| "tailDeleted p xs (Suc j) i =
     (if Suc j > i then RawA p j (ItemD (at xs j)) # tailDeleted p xs j i else [])"

text \<open>
  Lines 89 to 108: \<open>i = rhs.length - 1\<close>, \<open>j = lhs.length - 1\<close> and the two loops, which
  leave \<open>i\<close> and \<open>j\<close> at the smaller of the two.
\<close>

definition tailChanges :: "path \<Rightarrow> val list \<Rightarrow> val list \<Rightarrow> rawChange list" where
  "tailChanges p xs ys =
     tailNew p ys (length ys) (length xs) @
     tailDeleted p xs (length xs) (min (length ys) (length xs))"

text \<open>Lines 80 to 88: with \<open>orderIndependent\<close>, \<open>lhs\<close> is sorted, then \<open>rhs\<close>.\<close>

definition sortBoth :: "(heap \<Rightarrow> val \<Rightarrow> int) \<Rightarrow> opts \<Rightarrow> heap \<Rightarrow> val \<Rightarrow> val \<Rightarrow> heap" where
  "sortBoth hash opt h lhs rhs =
     (if orderIndependent opt then sortArray hash (sortArray hash h lhs) rhs else h)"

text \<open>\<open>rhsKeys.indexOf(k)\<close>, for \<open>other = rhsKeys.indexOf(lhsKey)\<close> and \<open>rhsKeys[other] = null\<close>\<close>

fun indexOf :: "'a \<Rightarrow> 'a list \<Rightarrow> nat option" where
  "indexOf x [] = None"
| "indexOf x (y # ys) = (if x = y then Some 0 else map_option Suc (indexOf x ys))"

text \<open>
  The number of objects of the heap that are not the left member of a frame of the stack:
  it bounds the depth of the recursion.
\<close>

definition unvisited :: "heap \<Rightarrow> frame list \<Rightarrow> nat" where
  "unvisited h stack = card ({a. a < length h} - {a. VRef a \<in> frame_lhs ` set stack})"

text \<open>An object reference that is not dangling. Every reference of a JavaScript heap is one.\<close>

definition validRef :: "heap \<Rightarrow> val \<Rightarrow> bool" where
  "validRef h v = (case v of VRef a \<Rightarrow> a < length h | _ \<Rightarrow> False)"

text \<open>
  Lines 38 to 41: two regular expressions are compared through their string forms.
\<close>

definition bothRegexp :: "heap \<Rightarrow> val \<Rightarrow> val \<Rightarrow> bool" where
  "bothRegexp h lhs rhs = (realTypeOf h lhs = ''regexp'' \<and> realTypeOf h rhs = ''regexp'')"

definition stringIf :: "bool \<Rightarrow> heap \<Rightarrow> val \<Rightarrow> val" where
  "stringIf b h v = (if b then regexpToString h v else v)"

text \<open>Lines 31 to 36: \<open>currentPath\<close> is a copy of \<open>path\<close>, with a truthy key pushed.\<close>

definition pathWith :: "path \<Rightarrow> string option \<Rightarrow> path" where
  "pathWith p key = (if keyTruthy key then p @ [keyString key] else p)"

text \<open>
  \<open>deepDiff\<close> (lines 22 to 168). The array \<open>changes\<close> that the source appends to is passed
  in and returned; so is the heap, which \<open>sort\<close> updates. The stack is pushed before the
  descent into two objects and popped after it, so the callee gets the longer stack and the
  caller keeps its own. The body is cut in three: \<open>deepDiff\<close> is the prologue (lines 28 to
  41: the prefilter, the current path, the regular expressions), \<open>compare\<close> the chain of
  tests on the two values (lines 47 to 167), \<open>descend\<close> the block between \<open>stack.push\<close> and
  \<open>stack.length -= 1\<close> (lines 78 to 157). \<open>arrayLoop\<close> is \<open>while (i >= 0)\<close>, with the number
  of indices left as its counter; \<open>lhsKeysLoop\<close> and \<open>rhsKeysLoop\<close> are the two \<open>forEach\<close>.
\<close>

function
  deepDiff :: "(heap \<Rightarrow> val \<Rightarrow> int) \<Rightarrow> opts \<Rightarrow> heap \<Rightarrow> val \<Rightarrow> val \<Rightarrow> rawChange list \<Rightarrow>
     path \<Rightarrow> string option \<Rightarrow> frame list \<Rightarrow> heap \<times> rawChange list"
and compare :: "(heap \<Rightarrow> val \<Rightarrow> int) \<Rightarrow> opts \<Rightarrow> heap \<Rightarrow> val \<Rightarrow> val \<Rightarrow> rawChange list \<Rightarrow>
     path \<Rightarrow> string option \<Rightarrow> frame list \<Rightarrow> heap \<times> rawChange list"
and descend :: "(heap \<Rightarrow> val \<Rightarrow> int) \<Rightarrow> opts \<Rightarrow> heap \<Rightarrow> val \<Rightarrow> val \<Rightarrow> rawChange list \<Rightarrow>
     path \<Rightarrow> frame list \<Rightarrow> heap \<times> rawChange list"
and arrayLoop :: "(heap \<Rightarrow> val \<Rightarrow> int) \<Rightarrow> opts \<Rightarrow> heap \<Rightarrow> val \<Rightarrow> val \<Rightarrow> nat \<Rightarrow> rawChange list \<Rightarrow>
     path \<Rightarrow> frame list \<Rightarrow> heap \<times> rawChange list"
and lhsKeysLoop :: "(heap \<Rightarrow> val \<Rightarrow> int) \<Rightarrow> opts \<Rightarrow> heap \<Rightarrow> val \<Rightarrow> val \<Rightarrow> string list \<Rightarrow>
     string option list \<Rightarrow> rawChange list \<Rightarrow> path \<Rightarrow> frame list \<Rightarrow>
     heap \<times> rawChange list \<times> string option list"
and rhsKeysLoop :: "(heap \<Rightarrow> val \<Rightarrow> int) \<Rightarrow> opts \<Rightarrow> heap \<Rightarrow> val \<Rightarrow> string option list \<Rightarrow>
     rawChange list \<Rightarrow> path \<Rightarrow> frame list \<Rightarrow> heap \<times> rawChange list"
where
  "deepDiff hash opt h lhs rhs changes path key stack =
    (if keyTruthy key \<and> prefiltered opt path (keyString key) then (h, changes)
     else compare hash opt h (stringIf (bothRegexp h lhs rhs) h lhs)
            (stringIf (bothRegexp h lhs rhs) h rhs) changes (pathWith path key) key stack)"
| "compare hash opt h lhs rhs changes currentPath key stack =
    (if \<not> defined h lhs (map frame_lhs stack) key \<and> defined h rhs (map frame_rhs stack) key
       then (h, changes @ [RawN currentPath rhs])
     else if \<not> defined h rhs (map frame_rhs stack) key \<and> defined h lhs (map frame_lhs stack) key
       then (h, changes @ [RawD currentPath lhs])
     else if realTypeOf h lhs \<noteq> realTypeOf h rhs
       then (h, changes @ [RawE currentPath lhs rhs])
     else if realTypeOf h lhs = ''date'' \<and> minusNonZero (timeValue h lhs) (timeValue h rhs)
       then (h, changes @ [RawE currentPath lhs rhs])
     else if truthy lhs \<and> truthy rhs \<and> typeofObject lhs then
       (if \<not> onStack stack lhs then
          (if validRef h lhs
           then descend hash opt h lhs rhs changes currentPath (stack @ [Frame lhs rhs])
           else (h, changes))
        else if \<not> strictEq lhs rhs then (h, changes @ [RawE currentPath lhs rhs])
        else (h, changes))
     else if \<not> strictEq lhs rhs then
       (if \<not> (isNaN lhs \<and> isNaN rhs) then (h, changes @ [RawE currentPath lhs rhs])
        else (h, changes))
     else (h, changes))"
| "descend hash opt h lhs rhs changes currentPath stack =
    (if isArray h lhs then
       (let h1 = sortBoth hash opt h lhs rhs
        in arrayLoop hash opt h1 lhs rhs (min (length (elems h1 rhs)) (length (elems h1 lhs)))
             (changes @ tailChanges currentPath (elems h1 lhs) (elems h1 rhs)) currentPath stack)
     else
       (case lhsKeysLoop hash opt h lhs rhs (keys h lhs) (map Some (keys h rhs))
               changes currentPath stack of
          (h1, changes1, rhsKeys) \<Rightarrow>
            rhsKeysLoop hash opt h1 rhs rhsKeys changes1 currentPath stack))"
| "arrayLoop hash opt h lhs rhs 0 changes path stack = (h, changes)"
| "arrayLoop hash opt h lhs rhs (Suc i) changes path stack =
    (case deepDiff hash opt h (at (elems h lhs) i) (at (elems h rhs) i) changes path
            (Some (showNat i)) stack of
       (h1, changes1) \<Rightarrow> arrayLoop hash opt h1 lhs rhs i changes1 path stack)"
| "lhsKeysLoop hash opt h lhs rhs [] rhsKeys changes path stack = (h, changes, rhsKeys)"
| "lhsKeysLoop hash opt h lhs rhs (lhsKey # ks) rhsKeys changes path stack =
    (case indexOf (Some lhsKey) rhsKeys of
       Some other \<Rightarrow>
         (case deepDiff hash opt h (getProp h lhs lhsKey) (getProp h rhs lhsKey) changes path
                 (Some lhsKey) stack of
            (h1, changes1) \<Rightarrow>
              lhsKeysLoop hash opt h1 lhs rhs ks (rhsKeys[other := None]) changes1 path stack)
     | None \<Rightarrow>
         (case deepDiff hash opt h (getProp h lhs lhsKey) VNull changes path
                 (Some lhsKey) stack of
            (h1, changes1) \<Rightarrow> lhsKeysLoop hash opt h1 lhs rhs ks rhsKeys changes1 path stack))"
| "rhsKeysLoop hash opt h rhs [] changes path stack = (h, changes)"
| "rhsKeysLoop hash opt h rhs (rhsKey # ks) changes path stack =
    (if keyTruthy rhsKey then
       (case deepDiff hash opt h VNull (getProp h rhs (keyString rhsKey)) changes path
               rhsKey stack of
          (h1, changes1) \<Rightarrow> rhsKeysLoop hash opt h1 rhs ks changes1 path stack)
     else rhsKeysLoop hash opt h rhs ks changes path stack)"
  by pat_completeness auto


text \<open>
  The \<open>diff(left, right, options)\<close> of the spec: \<open>deepDiff\<close> called the way \<open>observableDiff\<close>
  calls it, with an empty \<open>changes\<close> array and no key, path or stack.
\<close>

definition diff :: "(heap \<Rightarrow> val \<Rightarrow> int) \<Rightarrow> opts \<Rightarrow> heap \<Rightarrow> val \<Rightarrow> val \<Rightarrow> rawChange list" where
  "diff hash opt h lhs rhs = snd (deepDiff hash opt h lhs rhs [] [] None [])"

definition defaultOptions :: opts where
  "defaultOptions = \<lparr>prefilter = None, orderIndependent = False\<rparr>"

section \<open>observableDiff and findDiff\<close>

text \<open>
  \<open>TypeError\<close> is the exception of the language (a property of \<open>undefined\<close> or \<open>null\<close>, an
  assignment to a property of a primitive in strict mode); \<open>AccumError\<close> is the \<open>Error\<close>
  that \<open>findDiff\<close> throws, with the message "accum should have a 'push()' function";
  \<open>Unmodelled\<close> marks an operation that leaves the modelled fragment of the language (it
  would make an array hole or an extra property on an array, a date or a regular
  expression, give an object another prototype, or act on a built-in object).
\<close>

datatype error = TypeError | AccumError | Unmodelled

text \<open>\<open>xs.forEach(f)\<close> for a callback with an effect on a state \<open>'s\<close>, which may throw.\<close>

fun forEach :: "('a \<Rightarrow> 's \<Rightarrow> error + 's) \<Rightarrow> 'a list \<Rightarrow> 's \<Rightarrow> error + 's" where
  "forEach f [] s = Inr s"
| "forEach f (x # xs) s = (case f x s of Inl e \<Rightarrow> Inl e | Inr s1 \<Rightarrow> forEach f xs s1)"

text \<open>
  \<open>observableDiff\<close> (lines 206 to 222). The observer is a callback acting on a state of its
  own; the result is the heap after the traversal, the array \<open>changes\<close> and the state the
  observer leaves.
\<close>

definition observableDiff ::
  "(heap \<Rightarrow> val \<Rightarrow> int) \<Rightarrow> heap \<Rightarrow> val \<Rightarrow> val \<Rightarrow> (rawChange \<Rightarrow> 's \<Rightarrow> error + 's) option \<Rightarrow>
   (path \<Rightarrow> string \<Rightarrow> bool) option \<Rightarrow> bool \<Rightarrow> 's \<Rightarrow> error + heap \<times> rawChange list \<times> 's" where
  "observableDiff hash h lhs rhs observer pre ord s =
     (case deepDiff hash \<lparr>prefilter = pre, orderIndependent = ord\<rparr>
             h lhs rhs [] [] None [] of
        (h1, changes) \<Rightarrow>
          (case observer of
             Some f \<Rightarrow> (case forEach f changes s of
                          Inl e \<Rightarrow> Inl e
                        | Inr s1 \<Rightarrow> Inr (h1, changes, s1))
           | None \<Rightarrow> Inr (h1, changes, s)))"

text \<open>
  The \<open>accum\<close> argument of \<open>findDiff\<close>: a falsy value, or an object with a state and,
  when it has one, a \<open>push\<close> method acting on that state.
\<close>

datatype 's accum = NoAccum | Accum "(rawChange \<Rightarrow> 's \<Rightarrow> error + 's) option" 's

text \<open>The value \<open>accum || changes\<close> that \<open>findDiff\<close> returns.\<close>

datatype 's found = Changes "rawChange list" | Sink "'s accum"

text \<open>Lines 232 to 237: the observer that \<open>findDiff\<close> builds for a truthy \<open>accum\<close>. A change
  record is an object, so \<open>if (difference)\<close> holds.\<close>

definition accumObserver ::
  "(rawChange \<Rightarrow> 's \<Rightarrow> error + 's) option \<Rightarrow> rawChange \<Rightarrow> 's \<Rightarrow> error + 's" where
  "accumObserver push difference s =
     (case push of None \<Rightarrow> Inl AccumError | Some f \<Rightarrow> f difference s)"

text \<open>\<open>findDiff\<close> (lines 224 to 242)\<close>

definition findDiff ::
  "(heap \<Rightarrow> val \<Rightarrow> int) \<Rightarrow> heap \<Rightarrow> val \<Rightarrow> val \<Rightarrow> bool \<Rightarrow> (path \<Rightarrow> string \<Rightarrow> bool) option \<Rightarrow>
   's accum \<Rightarrow> error + heap \<times> 's found" where
  "findDiff hash h lhs rhs ord pre accum =
     (case accum of
        NoAccum \<Rightarrow>
          (case observableDiff hash h lhs rhs None pre ord () of
             Inl e \<Rightarrow> Inl e
           | Inr (h1, changes, u) \<Rightarrow> Inr (h1, Changes changes))
      | Accum push s \<Rightarrow>
          (case observableDiff hash h lhs rhs (Some (accumObserver push)) pre ord s of
             Inl e \<Rightarrow> Inl e
           | Inr (h1, changes, s1) \<Rightarrow> Inr (h1, Sink (Accum push s1))))"

section \<open>revertChange\<close>

text \<open>
  \<open>revertChange\<close> reads the members \<open>kind\<close>, \<open>path\<close>, \<open>lhs\<close>, \<open>index\<close> and \<open>item\<close> of its
  argument; a member that is not there is \<open>undefined\<close>. (The fields carry a prefix, the
  names without it being those of the arguments of \<open>deepDiff\<close>.)
\<close>

record item =
  item_kind :: val
  item_lhs :: val
  item_rhs :: val

record change =
  ckind :: val
  cpath :: path
  clhs :: val
  crhs :: val
  cindex :: val
  citem :: "item option"

text \<open>
  \<open>revertChange\<close> reads and writes properties under names that the change record gives,
  so the prototype chain counts. Every value but \<open>undefined\<close> and \<open>null\<close> inherits the
  properties of \<open>Object.prototype\<close>, named below: eleven methods and the accessor
  \<open>__proto__\<close>. The objects of the heap are ordinary ones (extensible, with writable data
  properties, and with the prototype that the language gives to an object literal, an
  array, a date or a regular expression), and the built-in prototypes are as the language
  defines them.
\<close>

definition objectPrototype :: "string list" where
  "objectPrototype =
     [''constructor'', ''__defineGetter__'', ''__defineSetter__'', ''hasOwnProperty'',
      ''__lookupGetter__'', ''__lookupSetter__'', ''isPrototypeOf'', ''propertyIsEnumerable'',
      ''toString'', ''valueOf'', ''__proto__'', ''toLocaleString'']"

text \<open>
  What a read gives: a value of the model, or a built-in object (a method or a prototype)
  found on the prototype chain, which is not \<open>undefined\<close> and of which the model knows no
  more.
\<close>

datatype place = Here val | Builtin

text \<open>
  \<open>it[k]\<close>, read through the prototype chain. Reading a property of \<open>undefined\<close> or \<open>null\<close>
  throws. An own property comes first; then the names of \<open>Object.prototype\<close>. A plain
  object has nothing else. What the other prototypes add (\<open>Array.prototype\<close>,
  \<open>String.prototype\<close> and so on) and the value of \<open>lastIndex\<close> are not modelled.
\<close>

definition readChain :: "heap \<Rightarrow> val \<Rightarrow> string \<Rightarrow> error + place" where
  "readChain h it k = (case it of
      VUndef \<Rightarrow> Inl TypeError
    | VNull \<Rightarrow> Inl TypeError
    | VRef a \<Rightarrow> (case lookup h a of
          Some (Plain ps) \<Rightarrow>
            (case map_of ps k of
               Some w \<Rightarrow> Inr (Here w)
             | None \<Rightarrow> if k \<in> set objectPrototype then Inr Builtin else Inr (Here VUndef))
        | Some (Arr xs) \<Rightarrow>
            if k \<in> set (indexKeys (length xs)) \<or> k = ''length'' then Inr (Here (getProp h it k))
            else if k \<in> set objectPrototype then Inr Builtin
            else Inl Unmodelled
        | Some (Date t) \<Rightarrow> if k \<in> set objectPrototype then Inr Builtin else Inl Unmodelled
        | Some (RegExp r) \<Rightarrow>
            if k \<noteq> ''lastIndex'' \<and> k \<in> set objectPrototype then Inr Builtin else Inl Unmodelled
        | None \<Rightarrow> Inl Unmodelled)
    | VStr s \<Rightarrow>
        if k \<in> set (indexKeys (length s)) \<or> k = ''length'' then Inr (Here (getProp h it k))
        else if k \<in> set objectPrototype then Inr Builtin
        else Inl Unmodelled
    | _ \<Rightarrow> if k \<in> set objectPrototype then Inr Builtin else Inl Unmodelled)"

text \<open>
  The order of the own keys of an object: the keys that are array indices (the decimal
  form, without a leading zero, of a number below \<open>2 ^ 32 - 1\<close>) come first, in ascending
  order, and the other keys follow in the order of their creation.
\<close>

definition isDigit :: "char \<Rightarrow> bool" where
  "isDigit c = (c \<in> set ''0123456789'')"

definition decimal :: "string \<Rightarrow> nat" where
  "decimal k = foldl (\<lambda>n c. 10 * n + (of_char c - 48)) 0 k"

definition arrayIndex :: "string \<Rightarrow> nat option" where
  "arrayIndex k =
     (if k \<noteq> [] \<and> list_all isDigit k \<and> (k = ''0'' \<or> hd k \<noteq> CHR ''0'') \<and> decimal k < 4294967295
      then Some (decimal k) else None)"

definition precedes :: "string \<Rightarrow> string \<Rightarrow> bool" where
  "precedes k k1 = (case arrayIndex k of
      None \<Rightarrow> False
    | Some n \<Rightarrow> (case arrayIndex k1 of None \<Rightarrow> True | Some m \<Rightarrow> n < m))"

fun insertKey :: "string \<Rightarrow> val \<Rightarrow> (string \<times> val) list \<Rightarrow> (string \<times> val) list" where
  "insertKey k v [] = [(k, v)]"
| "insertKey k v ((k1, w) # ps) =
     (if precedes k k1 then (k, v) # (k1, w) # ps else (k1, w) # insertKey k v ps)"

fun replaceKey :: "string \<Rightarrow> val \<Rightarrow> (string \<times> val) list \<Rightarrow> (string \<times> val) list" where
  "replaceKey k v [] = []"
| "replaceKey k v ((k1, w) # ps) = (if k = k1 then (k, v) # ps else (k1, w) # replaceKey k v ps)"

text \<open>A property list with \<open>k\<close> set to \<open>v\<close>: in place when the key is there, as a new key
  otherwise.\<close>

definition upsert :: "string \<Rightarrow> val \<Rightarrow> (string \<times> val) list \<Rightarrow> (string \<times> val) list" where
  "upsert k v ps = (if k \<in> set (map fst ps) then replaceKey k v ps else insertKey k v ps)"

text \<open>
  \<open>it[k] = v\<close>. The file is a module, so the code is strict: assigning to a property of a
  primitive throws. The one exception is the name \<open>__proto__\<close>: where it is not an own
  property, the assignment calls the setter of \<open>Object.prototype\<close>, which makes no
  property; it does nothing for a primitive receiver or a primitive \<open>v\<close> and otherwise
  gives the object another prototype, which is outside the model. The other names of
  \<open>Object.prototype\<close> are writable data properties, so an assignment makes an own
  property.
\<close>

definition writeProp :: "heap \<Rightarrow> val \<Rightarrow> string \<Rightarrow> val \<Rightarrow> error + heap" where
  "writeProp h it k v = (case it of
      VUndef \<Rightarrow> Inl TypeError
    | VNull \<Rightarrow> Inl TypeError
    | VRef a \<Rightarrow> (case lookup h a of
          Some (Plain ps) \<Rightarrow>
            if k = ''__proto__'' \<and> k \<notin> set (map fst ps) then
              (case v of VRef b \<Rightarrow> Inl Unmodelled | VNull \<Rightarrow> Inl Unmodelled | _ \<Rightarrow> Inr h)
            else Inr (h[a := Plain (upsert k v ps)])
        | Some (Arr xs) \<Rightarrow>
            (case find (\<lambda>i. showNat i = k) [0..<length xs] of
               Some i \<Rightarrow> Inr (h[a := Arr (xs[i := v])])
             | None \<Rightarrow> Inl Unmodelled)
        | _ \<Rightarrow> Inl Unmodelled)
    | _ \<Rightarrow> if k = ''__proto__'' then Inr h else Inl TypeError)"

text \<open>\<open>delete it[k]\<close>: only an own property is deleted.\<close>

definition deleteProp :: "heap \<Rightarrow> val \<Rightarrow> string \<Rightarrow> error + heap" where
  "deleteProp h it k = (case it of
      VRef a \<Rightarrow> (case lookup h a of
          Some (Plain ps) \<Rightarrow> Inr (h[a := Plain (filter (\<lambda>(k1, w). k1 \<noteq> k) ps)])
        | Some (Arr xs) \<Rightarrow>
            if k \<in> set (indexKeys (length xs)) then Inl Unmodelled
            else if k = ''length'' then Inl TypeError
            else Inr h
        | Some (RegExp r) \<Rightarrow> if k = ''lastIndex'' then Inl TypeError else Inr h
        | Some (Date t) \<Rightarrow> Inr h
        | None \<Rightarrow> Inl Unmodelled)
    | VStr s \<Rightarrow> if k \<in> set (indexKeys (length s)) \<or> k = ''length'' then Inl TypeError else Inr h
    | VUndef \<Rightarrow> Inl TypeError
    | VNull \<Rightarrow> Inl TypeError
    | _ \<Rightarrow> Inr h)"

text \<open>\<open>{}\<close>: a new empty object.\<close>

definition newObject :: "heap \<Rightarrow> heap \<times> val" where
  "newObject h = (h @ [Plain []], VRef (length h))"

text \<open>
  Lines 176 to 181: the loop over all segments of the path but the last. Where
  \<open>typeof it[segment]\<close> is \<open>'undefined'\<close> it makes an empty object there; then it moves to
  \<open>it[segment]\<close>. A segment that names an inherited property moves it to a built-in
  object, and what a further step from there reads is not modelled.
\<close>

fun walk :: "heap \<Rightarrow> place \<Rightarrow> string list \<Rightarrow> error + heap \<times> place" where
  "walk h it [] = Inr (h, it)"
| "walk h Builtin (k # ks) = Inl Unmodelled"
| "walk h (Here it) (k # ks) =
     (case readChain h it k of
        Inl e \<Rightarrow> Inl e
      | Inr Builtin \<Rightarrow> walk h Builtin ks
      | Inr (Here v) \<Rightarrow>
          if v = VUndef then
            (case newObject h of
               (h1, ob) \<Rightarrow>
                 (case writeProp h1 it k ob of
                    Inl e \<Rightarrow> Inl e
                  | Inr h2 \<Rightarrow>
                      (case readChain h2 it k of
                         Inl e \<Rightarrow> Inl e
                       | Inr it2 \<Rightarrow> walk h2 it2 ks)))
          else walk h (Here v) ks)"

text \<open>\<open>change.path[i]\<close> after the loop: the last segment, or \<open>undefined\<close>, read as the key
  \<open>"undefined"\<close>, when the path is empty.\<close>

definition lastKey :: "path \<Rightarrow> string" where
  "lastKey p = (if p = [] then ''undefined'' else last p)"

text \<open>
  \<open>revertChange\<close> (lines 170 to 204). \<open>revertArrayChange\<close> is imported from \<open>./utils\<close>; it
  is the parameter \<open>revertArrayChange\<close> of the model, which gets the heap, the value at the
  last segment, the index and the item. The change is \<open>None\<close> when it is \<open>null\<close> or
  \<open>undefined\<close>. Where the loop has ended on a built-in object, a recognised kind would
  read, write or delete a property of that object, which is outside the model.
\<close>

definition revertChange ::
  "(heap \<Rightarrow> val \<Rightarrow> val \<Rightarrow> item option \<Rightarrow> error + heap) \<Rightarrow> heap \<Rightarrow> val \<Rightarrow> change option \<Rightarrow>
   error + heap" where
  "revertChange revertArrayChange h target chg =
     (case chg of
        None \<Rightarrow> Inr h
      | Some c \<Rightarrow>
          if truthy target \<and> truthy (ckind c) then
            (case walk h (Here target) (butlast (cpath c)) of
               Inl e \<Rightarrow> Inl e
             | Inr (h1, Builtin) \<Rightarrow>
                 if ckind c \<in> {VStr ''A'', VStr ''D'', VStr ''E'', VStr ''N''} then Inl Unmodelled
                 else Inr h1
             | Inr (h1, Here it) \<Rightarrow>
                 if ckind c = VStr ''A'' then
                   (case readChain h1 it (lastKey (cpath c)) of
                      Inl e \<Rightarrow> Inl e
                    | Inr Builtin \<Rightarrow> Inl Unmodelled
                    | Inr (Here arr) \<Rightarrow> revertArrayChange h1 arr (cindex c) (citem c))
                 else if ckind c = VStr ''D'' then writeProp h1 it (lastKey (cpath c)) (clhs c)
                 else if ckind c = VStr ''E'' then writeProp h1 it (lastKey (cpath c)) (clhs c)
                 else if ckind c = VStr ''N'' then deleteProp h1 it (lastKey (cpath c))
                 else Inr h1)
          else Inr h)"

section \<open>Example inputs\<close>

text \<open>A hash that gives every value the same key, for the examples.\<close>

definition hash0 :: "heap \<Rightarrow> val \<Rightarrow> int" where
  "hash0 h v = 0"

text \<open>\<open>{a: 0}\<close> at address 0 and \<open>{}\<close> at address 1.\<close>

definition heap_C6 :: heap where
  "heap_C6 = [Plain [(''a'', VNum (Num 0))], Plain []]"

text \<open>\<open>a = {}; a.self = a; b = {}; b.self = b\<close>, with \<open>a\<close> at address 0 and \<open>b\<close> at 1.\<close>

definition heap_C8 :: heap where
  "heap_C8 = [Plain [(''self'', VRef 0)], Plain [(''self'', VRef 1)]]"

text \<open>\<open>new Date(NaN)\<close>, an invalid date, at address 0.\<close>

definition heap_C5 :: heap where
  "heap_C5 = [Date NaN]"

text \<open>\<open>[1, 2]\<close> at address 0 and \<open>[1, 2, 3, 4]\<close> at address 1.\<close>

definition heap_C7 :: heap where
  "heap_C7 = [Arr [VNum (Num 1), VNum (Num 2)],
              Arr [VNum (Num 1), VNum (Num 2), VNum (Num 3), VNum (Num 4)]]"

text \<open>\<open>[5, 2]\<close> at address 0 and \<open>[1, 9, 3, 4]\<close> at address 1: the common prefix differs.\<close>

definition heap_C7_prefix :: heap where
  "heap_C7_prefix = [Arr [VNum (Num 5), VNum (Num 2)],
                     Arr [VNum (Num 1), VNum (Num 9), VNum (Num 3), VNum (Num 4)]]"

text \<open>\<open>[]\<close> at address 0 and \<open>[undefined, 5]\<close> at address 1, and the options with
  \<open>orderIndependent\<close> set.\<close>

definition heap_C7_sorted :: heap where
  "heap_C7_sorted = [Arr [], Arr [VUndef, VNum (Num 5)]]"

definition unordered :: opts where
  "unordered = \<lparr>prefilter = None, orderIndependent = True\<rparr>"

text \<open>An observer \<open>f\<close> that also keeps a log of the records it is called with.\<close>

definition traced ::
  "(rawChange \<Rightarrow> 's \<Rightarrow> error + 's) \<Rightarrow> rawChange \<Rightarrow> 's \<times> rawChange list \<Rightarrow>
   error + 's \<times> rawChange list" where
  "traced f c st = (case f c (fst st) of Inl e \<Rightarrow> Inl e | Inr s1 \<Rightarrow> Inr (s1, snd st @ [c]))"

text \<open>\<open>Array.prototype.push\<close>, for a sink that is an array, and as an observer.\<close>

definition arrayPush :: "rawChange \<Rightarrow> rawChange list \<Rightarrow> error + rawChange list" where
  "arrayPush c xs = Inr (xs @ [c])"

text \<open>An array helper that does nothing, for the examples of \<open>revertChange\<close>, none of which
  has the kind \<open>'A'\<close>.\<close>

definition noArrays :: "heap \<Rightarrow> val \<Rightarrow> val \<Rightarrow> item option \<Rightarrow> error + heap" where
  "noArrays h arr i it = Inr h"

text \<open>\<open>{kind: 'X', path: ['a', 'b']}\<close>, a record of an unrecognised kind.\<close>

definition change_C3 :: change where
  "change_C3 = \<lparr>ckind = VStr ''X'', cpath = [''a'', ''b''], clhs = VUndef, crhs = VUndef,
     cindex = VUndef, citem = None\<rparr>"

text \<open>
  \<open>present h it p\<close>: every segment of the path \<open>p\<close>, followed from \<open>it\<close>, reads as
  something other than \<open>undefined\<close>: an own property with such a value or, for the last
  segment, a property that the prototype chain gives.
\<close>

fun present :: "heap \<Rightarrow> val \<Rightarrow> string list \<Rightarrow> bool" where
  "present h it [] = True"
| "present h it (k # ks) =
     (case readChain h it k of
        Inl e \<Rightarrow> False
      | Inr Builtin \<Rightarrow> ks = []
      | Inr (Here v) \<Rightarrow> v \<noteq> VUndef \<and> present h v ks)"

text \<open>\<open>{}\<close> as the \<open>accum\<close> of \<open>findDiff\<close>: an object without \<open>push\<close>.\<close>

definition noAccumPush :: "unit accum" where
  "noAccumPush = Accum None ()"

text \<open>The path \<open>p\<close> of a change record.\<close>

fun rawPath :: "rawChange \<Rightarrow> path" where
  "rawPath (RawN p r) = p"
| "rawPath (RawD p l) = p"
| "rawPath (RawE p l r) = p"
| "rawPath (RawA p i it) = p"

text \<open>A prefilter that suppresses every key it is asked about.\<close>

definition rejectAll :: "path \<Rightarrow> string \<Rightarrow> bool" where
  "rejectAll p k = True"

text \<open>\<open>{a: 1}\<close> at address 0, \<open>{"": 5, a: 2}\<close> at 1, \<open>{"": 1}\<close> at 2 and \<open>{"": 2}\<close> at 3.\<close>

definition heap_C10 :: heap where
  "heap_C10 = [Plain [(''a'', VNum (Num 1))], Plain [('''', VNum (Num 5)), (''a'', VNum (Num 2))],
               Plain [('''', VNum (Num 1))], Plain [('''', VNum (Num 2))]]"

section \<open>Reverting a whole diff\<close>

text \<open>
  Modelled from the spec: the change records that \<open>deepDiff\<close> pushes have the members
  \<open>k\<close>, \<open>p\<close>, \<open>l\<close>, \<open>r\<close>, \<open>i\<close> and \<open>it\<close>, the ones that \<open>revertChange\<close> reads are \<open>kind\<close>,
  \<open>path\<close>, \<open>lhs\<close>, \<open>rhs\<close>, \<open>index\<close> and \<open>item\<close>, and the code that maps the first to the
  second is not part of the sources at hand. The spec has one change record for both
  (a kind tag, a path and the payload of the kind), so each member is carried over under
  its long name.
\<close>

fun toItem :: "rawItem \<Rightarrow> item" where
  "toItem (ItemN r) = \<lparr>item_kind = VStr ''N'', item_lhs = VUndef, item_rhs = r\<rparr>"
| "toItem (ItemD l) = \<lparr>item_kind = VStr ''D'', item_lhs = l, item_rhs = VUndef\<rparr>"

fun toChange :: "rawChange \<Rightarrow> change" where
  "toChange (RawN p r) = \<lparr>ckind = VStr ''N'', cpath = p, clhs = VUndef, crhs = r,
     cindex = VUndef, citem = None\<rparr>"
| "toChange (RawD p l) = \<lparr>ckind = VStr ''D'', cpath = p, clhs = l, crhs = VUndef,
     cindex = VUndef, citem = None\<rparr>"
| "toChange (RawE p l r) = \<lparr>ckind = VStr ''E'', cpath = p, clhs = l, crhs = r,
     cindex = VUndef, citem = None\<rparr>"
| "toChange (RawA p i it) = \<lparr>ckind = VStr ''A'', cpath = p, clhs = VUndef, crhs = VUndef,
     cindex = VNum (Num (int i)), citem = Some (toItem it)\<rparr>"

text \<open>\<open>revert(target, r)\<close> for every record \<open>r\<close> of a list, one after the other; an
  exception ends the run.\<close>

fun revertAll ::
  "(heap \<Rightarrow> val \<Rightarrow> val \<Rightarrow> item option \<Rightarrow> error + heap) \<Rightarrow> heap \<Rightarrow> val \<Rightarrow> change list \<Rightarrow>
   error + heap" where
  "revertAll rac h target [] = Inr h"
| "revertAll rac h target (c # cs) =
     (case revertChange rac h target (Some c) of
        Inl e \<Rightarrow> Inl e
      | Inr h1 \<Rightarrow> revertAll rac h1 target cs)"

text \<open>
  The values for which the round trip is proved: \<open>acyclicPlain n h v\<close> holds when \<open>v\<close> is built, to
  a depth of at most \<open>n\<close>, from primitives and plain objects whose keys are distinct, not
  empty and not \<open>__proto__\<close> (so it has no cycle; an object may occur in it more than once).
\<close>

primrec acyclicPlain :: "nat \<Rightarrow> heap \<Rightarrow> val \<Rightarrow> bool" where
  "acyclicPlain 0 h v = (case v of VRef a \<Rightarrow> False | _ \<Rightarrow> True)"
| "acyclicPlain (Suc m) h v = (case v of
      VRef a \<Rightarrow> (case lookup h a of
          Some (Plain ps) \<Rightarrow>
            distinct (map fst ps) \<and> [] \<notin> set (map fst ps) \<and>
            ''__proto__'' \<notin> set (map fst ps) \<and>
            (\<forall>k \<in> set (map fst ps). acyclicPlain m h (getProp h v k))
        | _ \<Rightarrow> False)
    | _ \<Rightarrow> True)"

text \<open>The values of \<open>acyclicPlain\<close>: primitives and plain objects.\<close>

definition plainValue :: "heap \<Rightarrow> val \<Rightarrow> bool" where
  "plainValue h v = (case v of VRef a \<Rightarrow> (\<exists>ps. lookup h a = Some (Plain ps)) | _ \<Rightarrow> True)"

text \<open>
  The objects that make up a value, to a depth of \<open>n\<close>, in the order of a traversal: the
  list is distinct exactly when no object is reached twice, that is when the value is a tree.
\<close>

primrec region :: "nat \<Rightarrow> heap \<Rightarrow> val \<Rightarrow> nat list" where
  "region 0 h v = (case v of VRef a \<Rightarrow> [a] | _ \<Rightarrow> [])"
| "region (Suc m) h v = (case v of
      VRef a \<Rightarrow> a # concat (map (\<lambda>k. region m h (getProp h v k)) (keys h v))
    | _ \<Rightarrow> [])"

text \<open>
  \<open>sameValue n h1 v h2 w\<close>: the value \<open>v\<close> in the heap \<open>h1\<close> and the value \<open>w\<close> in the heap
  \<open>h2\<close> are the same primitive, or plain objects with the same keys (in any order) and the
  same values under them, to a depth of \<open>n\<close>.
\<close>

primrec sameValue :: "nat \<Rightarrow> heap \<Rightarrow> val \<Rightarrow> heap \<Rightarrow> val \<Rightarrow> bool" where
  "sameValue 0 h1 v h2 w = (case v of VRef a \<Rightarrow> False | _ \<Rightarrow> v = w)"
| "sameValue (Suc m) h1 v h2 w = (case v of
      VRef a \<Rightarrow> (case w of
          VRef b \<Rightarrow> (case lookup h1 a of
              Some (Plain ps) \<Rightarrow> (case lookup h2 b of
                  Some (Plain qs) \<Rightarrow>
                    distinct (map fst ps) \<and> set (map fst ps) = set (map fst qs) \<and>
                    (\<forall>k \<in> set (map fst qs).
                       sameValue m h1 (getProp h1 v k) h2 (getProp h2 w k))
                | _ \<Rightarrow> False)
            | _ \<Rightarrow> False)
        | _ \<Rightarrow> False)
    | _ \<Rightarrow> v = w)"

text \<open>\<open>{}\<close> at address 0, \<open>{"": 1}\<close> at address 1 and a copy of it at address 2.\<close>

definition heap_C1 :: heap where
  "heap_C1 = [Plain [], Plain [('''', VNum (Num 1))], Plain [('''', VNum (Num 1))]]"

text \<open>
  \<open>{a: {b: 1}, c: 0}\<close> at address 0 (its inner object at 1), \<open>{a: {b: 2}, d: 4}\<close> at 2 (its
  inner object at 3) and a copy of the latter at 4 (its inner object at 5).
\<close>

definition heap_trip :: heap where
  "heap_trip = [Plain [(''a'', VRef 1), (''c'', VNum (Num 0))], Plain [(''b'', VNum (Num 1))],
                Plain [(''a'', VRef 3), (''d'', VNum (Num 4))], Plain [(''b'', VNum (Num 2))],
                Plain [(''a'', VRef 5), (''d'', VNum (Num 4))], Plain [(''b'', VNum (Num 2))]]"

text \<open>
  The vocabulary of the proof of the round trip. \<open>reach h v p\<close> is the value at the path
  \<open>p\<close> under \<open>v\<close>, when every segment of the path is there; \<open>pathObjs h v p\<close> are the
  objects on the way, the last one left out.
\<close>

fun reach :: "heap \<Rightarrow> val \<Rightarrow> path \<Rightarrow> val option" where
  "reach h v [] = Some v"
| "reach h v (k # ks) =
     (if v = VUndef \<or> v = VNull \<or> getProp h v k = VUndef then None
      else reach h (getProp h v k) ks)"

fun pathObjs :: "heap \<Rightarrow> val \<Rightarrow> path \<Rightarrow> nat list" where
  "pathObjs h v [] = []"
| "pathObjs h v (k # ks) = (case v of VRef a \<Rightarrow> [a] | _ \<Rightarrow> []) @ pathObjs h (getProp h v k) ks"

text \<open>
  \<open>below h stack v\<close>: the left member of every frame of the stack is deeper than \<open>v\<close>, so
  it is not \<open>v\<close>.
\<close>

definition below :: "heap \<Rightarrow> frame list \<Rightarrow> val \<Rightarrow> bool" where
  "below h stack v =
     (\<forall>f \<in> set stack. \<forall>m. acyclicPlain m h (frame_lhs f) \<longrightarrow> (\<exists>j < m. acyclicPlain j h v))"

text \<open>
  The target of a revert at work: under the root \<open>troot\<close>, the path \<open>p\<close> leads to the
  object \<open>ta\<close>, which is a copy of the object \<open>ro\<close> of the heap \<open>h\<close> that was compared, is
  a tree, and shares no object with the way to it or with the set \<open>LR\<close> of objects of the
  left value, which are still as they are in \<open>h\<close>.
\<close>

definition copyAt ::
  "heap \<Rightarrow> nat set \<Rightarrow> nat \<Rightarrow> heap \<Rightarrow> val \<Rightarrow> path \<Rightarrow> nat \<Rightarrow> nat \<Rightarrow> bool" where
  "copyAt h LR n H troot p ta ro =
     (sameValue n H (VRef ta) h (VRef ro) \<and> distinct (region n H (VRef ta)) \<and>
      set (region n H (VRef ta)) \<inter> LR = {} \<and>
      (\<forall>a \<in> LR. lookup H a = lookup h a) \<and> reach H troot p = Some (VRef ta) \<and>
      set (pathObjs H troot p) \<inter> set (region n H (VRef ta)) = {} \<and> truthy troot)"

text \<open>
  The outcome of reverting the records \<open>recs\<close>, last one first: the run ends in a heap that
  differs from \<open>H\<close> on objects of the target only, where the target has the value that
  \<open>lo\<close> has in \<open>h\<close>, and is made of objects it had and of objects of \<open>LR\<close>.
\<close>

definition revertsTo ::
  "(heap \<Rightarrow> val \<Rightarrow> val \<Rightarrow> item option \<Rightarrow> error + heap) \<Rightarrow> heap \<Rightarrow> nat set \<Rightarrow> nat \<Rightarrow> heap \<Rightarrow>
   val \<Rightarrow> nat \<Rightarrow> rawChange list \<Rightarrow> nat \<Rightarrow> bool" where
  "revertsTo rac h LR n H troot ta recs lo =
     (\<exists>H1. revertAll rac H troot (rev (map toChange recs)) = Inr H1 \<and>
        length H1 = length H \<and>
        (\<forall>a. a \<notin> set (region n H (VRef ta)) \<longrightarrow> lookup H1 a = lookup H a) \<and>
        sameValue n H1 (VRef ta) h (VRef lo) \<and>
        set (region n H1 (VRef ta)) \<subseteq> set (region n H (VRef ta)) \<union> LR)"

text \<open>
  The records that the comparison of the objects \<open>L\<close> and \<open>R\<close> emits for the key \<open>k\<close>, and
  what reverting them makes of the property \<open>k\<close> of the target, whose properties are
  \<open>tps\<close> in the heap \<open>H1\<close>.
\<close>

definition keyRecords ::
  "(heap \<Rightarrow> val \<Rightarrow> int) \<Rightarrow> opts \<Rightarrow> heap \<Rightarrow> val \<Rightarrow> val \<Rightarrow> path \<Rightarrow> frame list \<Rightarrow> string \<Rightarrow>
   rawChange list" where
  "keyRecords hash opt h L R p st k =
     (if k \<in> set (keys h L) then
        (if k \<in> set (keys h R)
         then snd (deepDiff hash opt h (getProp h L k) (getProp h R k) [] p (Some k) st)
         else [RawD (p @ [k]) (getProp h L k)])
      else [RawN (p @ [k]) (getProp h R k)])"

definition keyDone ::
  "heap \<Rightarrow> nat set \<Rightarrow> nat \<Rightarrow> heap \<Rightarrow> val \<Rightarrow> nat set \<Rightarrow> (string \<times> val) list \<Rightarrow> string \<Rightarrow> bool" where
  "keyDone h LR m H1 L reg tps k =
     (if k \<in> set (keys h L) then
        (case map_of tps k of
           None \<Rightarrow> False
         | Some x \<Rightarrow> sameValue m H1 x h (getProp h L k) \<and> set (region m H1 x) \<subseteq> reg \<union> LR)
      else map_of tps k = None)"

text \<open>
  The round trip for two objects of a depth of at most \<open>n\<close>, wherever in the comparison
  they are met: the records of \<open>descend\<close>, reverted last one first on a copy of the right
  object, give the left object.
\<close>

definition roundTrip ::
  "(heap \<Rightarrow> val \<Rightarrow> val \<Rightarrow> item option \<Rightarrow> error + heap) \<Rightarrow> (heap \<Rightarrow> val \<Rightarrow> int) \<Rightarrow> opts \<Rightarrow> heap \<Rightarrow>
   nat set \<Rightarrow> val \<Rightarrow> nat \<Rightarrow> bool" where
  "roundTrip rac hash opt h LR troot n =
     (\<forall>lo ro ta p st0 H.
        acyclicPlain n h (VRef lo) \<longrightarrow> acyclicPlain n h (VRef ro) \<longrightarrow> below h st0 (VRef lo) \<longrightarrow>
        set (region n h (VRef lo)) \<subseteq> LR \<longrightarrow> copyAt h LR n H troot p ta ro \<longrightarrow>
        revertsTo rac h LR n H troot ta
          (snd (descend hash opt h (VRef lo) (VRef ro) [] p (st0 @ [Frame (VRef lo) (VRef ro)])))
          lo)"
section \<open>Termination of deepDiff\<close>

lemma length_sortArray [simp]: "length (sortArray hash h v) = length h"
  by (simp add: sortArray_def split: val.splits option.splits obj.splits)

lemma length_sortBoth [simp]: "length (sortBoth hash opt h lhs rhs) = length h"
  by (simp add: sortBoth_def)

lemma length_preserved:
  "deepDiff_compare_descend_arrayLoop_lhsKeysLoop_rhsKeysLoop_dom (Inl (Inl (hash, opt, h, lhs0, rhs0, changes, path, key, stack)))
     \<Longrightarrow> length (fst (deepDiff hash opt h lhs0 rhs0 changes path key stack)) = length h"
  "deepDiff_compare_descend_arrayLoop_lhsKeysLoop_rhsKeysLoop_dom (Inl (Inr (Inl (hash, opt, h, lhs0, rhs0, changes, path, key, stack))))
     \<Longrightarrow> length (fst (compare hash opt h lhs0 rhs0 changes path key stack)) = length h"
  "deepDiff_compare_descend_arrayLoop_lhsKeysLoop_rhsKeysLoop_dom (Inl (Inr (Inr (hash, opt, h, lhs, rhs, changes, path, stack))))
     \<Longrightarrow> length (fst (descend hash opt h lhs rhs changes path stack)) = length h"
  "deepDiff_compare_descend_arrayLoop_lhsKeysLoop_rhsKeysLoop_dom (Inr (Inl (hash, opt, h, lhs, rhs, n, changes, path, stack)))
     \<Longrightarrow> length (fst (arrayLoop hash opt h lhs rhs n changes path stack)) = length h"
  "deepDiff_compare_descend_arrayLoop_lhsKeysLoop_rhsKeysLoop_dom (Inr (Inr (Inl (hash, opt, h, lhs, rhs, ks, rhsKeys, changes, path, stack))))
     \<Longrightarrow> length (fst (lhsKeysLoop hash opt h lhs rhs ks rhsKeys changes path stack)) = length h"
  "deepDiff_compare_descend_arrayLoop_lhsKeysLoop_rhsKeysLoop_dom (Inr (Inr (Inr (hash, opt, h, rhs, rks, changes, path, stack))))
     \<Longrightarrow> length (fst (rhsKeysLoop hash opt h rhs rks changes path stack)) = length h"
proof (induct rule: deepDiff_compare_descend_arrayLoop_lhsKeysLoop_rhsKeysLoop.pinduct)
  case (1 hash opt h lhs0 rhs0 changes path key stack)
  then show ?case by (simp add: deepDiff.psimps)
next
  case (2 hash opt h lhs0 rhs0 changes path key stack)
  then show ?case by (simp add: compare.psimps)
next
  case (3 hash opt h lhs rhs changes path stack)
  show ?case
    apply (subst descend.psimps [OF 3(1)])
    apply (simp add: Let_def 3(2) split: prod.splits)
    using 3(3,4) apply (metis fst_conv)
    done
next
  case (4 hash opt h lhs rhs changes path stack)
  then show ?case by (simp add: arrayLoop.psimps)
next
  case (5 hash opt h lhs rhs i changes path stack)
  then show ?case by (auto simp add: arrayLoop.psimps split: prod.splits)
next
  case (6 hash opt h lhs rhs rhsKeys changes path stack)
  then show ?case by (simp add: lhsKeysLoop.psimps)
next
  case (7 hash opt h lhs rhs lhsKey ks rhsKeys changes path stack)
  then show ?case 
    by (auto simp add: lhsKeysLoop.psimps split: prod.splits option.splits)
next
  case (8 hash opt h rhs changes path stack)
  then show ?case by (simp add: rhsKeysLoop.psimps)
next
  case (9 hash opt h rhs rhsKey ks changes path stack)
  then show ?case by (auto simp add: rhsKeysLoop.psimps split: prod.splits)
qed

lemma unvisited_length: "length h' = length h \<Longrightarrow> unvisited h' stack = unvisited h stack"
  by (simp add: unvisited_def)

lemma unvisited_push:
  assumes "validRef h lhs" and "\<not> onStack stack lhs"
  shows "unvisited h (stack @ [Frame lhs rhs]) < unvisited h stack"
proof -
  from assms(1) obtain a where a: "lhs = VRef a" "a < length h"
    by (auto simp: validRef_def split: val.splits)
  from assms(2) a have notin: "VRef a \<notin> frame_lhs ` set stack"
    by (auto simp: onStack_def strictEq_def)
  have "{a. a < length h} - {b. VRef b \<in> frame_lhs ` set (stack @ [Frame lhs rhs])}
      \<subset> {a. a < length h} - {b. VRef b \<in> frame_lhs ` set stack}"
    using a notin by auto
  then show ?thesis
    unfolding unvisited_def by (intro psubset_card_mono) auto
qed

lemma unvisited_deepDiff:
  assumes "deepDiff_compare_descend_arrayLoop_lhsKeysLoop_rhsKeysLoop_dom
             (Inl (Inl (hash, opt, h, l, r, ch, p, k, st)))"
    and "(x, y) = deepDiff hash opt h l r ch p k st"
  shows "unvisited x stack = unvisited h stack"
proof -
  have "length (fst (deepDiff hash opt h l r ch p k st)) = length h"
    using assms(1) by (rule length_preserved(1))
  with assms(2) have "length x = length h"
    by (simp add: fst_def split: prod.splits)
  then show ?thesis by (simp add: unvisited_def)
qed

lemma unvisited_lhsKeysLoop:
  assumes "deepDiff_compare_descend_arrayLoop_lhsKeysLoop_rhsKeysLoop_dom
             (Inr (Inr (Inl (hash, opt, h, l, r, ks, rks, ch, p, st))))"
    and "(x, y) = lhsKeysLoop hash opt h l r ks rks ch p st"
  shows "unvisited x stack = unvisited h stack"
proof -
  have "length (fst (lhsKeysLoop hash opt h l r ks rks ch p st)) = length h"
    using assms(1) by (rule length_preserved(5))
  with assms(2) have "length x = length h"
    by (simp add: fst_def split: prod.splits)
  then show ?thesis by (simp add: unvisited_def)
qed

termination deepDiff
  apply (relation "inv_image (less_than <*lex*> less_than <*lex*> less_than)
    (\<lambda>x. case x of
        Inl (Inl (hash, opt, h, l, r, ch, p, k, st)) \<Rightarrow> (unvisited h st, 1::nat, 0::nat)
      | Inl (Inr (Inl (hash, opt, h, l, r, ch, p, k, st))) \<Rightarrow> (unvisited h st, 0, 0)
      | Inl (Inr (Inr (hash, opt, h, l, r, ch, p, st))) \<Rightarrow> (unvisited h st, 3, 0)
      | Inr (Inl (hash, opt, h, l, r, n, ch, p, st)) \<Rightarrow> (unvisited h st, 2, n)
      | Inr (Inr (Inl (hash, opt, h, l, r, ks, rks, ch, p, st))) \<Rightarrow> (unvisited h st, 2, length ks)
      | Inr (Inr (Inr (hash, opt, h, r, rks, ch, p, st))) \<Rightarrow> (unvisited h st, 2, length rks))")
         apply simp_all
         apply (rule wf_inv_image, intro wf_lex_prod wf_less_than)
        apply (simp add: unvisited_push)
       apply (simp add: unvisited_def)
      apply (simp add: unvisited_lhsKeysLoop)
     apply (simp_all add: unvisited_deepDiff)
  done



section \<open>Basic facts\<close>

lemma keyTruthy_simps [simp]:
  "keyTruthy None = False" "keyTruthy (Some k) = (k \<noteq> [])"
  by (simp_all add: keyTruthy_def)

lemma keyString_simps [simp]:
  "keyString None = ''undefined''" "keyString (Some k) = k"
  by (simp_all add: keyString_def)

lemma stringIf_False [simp]: "stringIf False h v = v"
  by (simp add: stringIf_def)

lemma pathWith_simps [simp]:
  "pathWith p None = p" "pathWith p (Some []) = p" "k \<noteq> [] \<Longrightarrow> pathWith p (Some k) = p @ [k]"
  by (simp_all add: pathWith_def)

lemma defined_root [simp]: "defined h v [] key = truthy v"
  by (simp add: defined_def)

lemma bothRegexp_tags: "realTypeOf h v \<noteq> realTypeOf h w \<Longrightarrow> \<not> bothRegexp h v w"
  by (auto simp: bothRegexp_def)

lemma lookup_less: "lookup h a = Some ob \<Longrightarrow> a < length h"
  by (simp add: lookup_def split: if_splits)

lemma validRef_lookup: "lookup h a = Some ob \<Longrightarrow> validRef h (VRef a)"
  by (simp add: validRef_def lookup_less)

lemmas heap_defs = isArray_def elems_def keys_def getProp_def hasOwn_def realTypeOf_def
  regexpToString_def timeValue_def bothRegexp_def defined_def onStack_def strictEq_def isNaN_def
  prefiltered_def minusNonZero_def

text \<open>
  The equations of \<open>deepDiff\<close>, \<open>compare\<close> and \<open>descend\<close> are unfolded on demand.
\<close>

lemmas deepDiff_simps = deepDiff.simps compare.simps descend.simps arrayLoop.simps
  lhsKeysLoop.simps rhsKeysLoop.simps
declare deepDiff.simps [simp del] compare.simps [simp del] descend.simps [simp del]

text \<open>
  \<open>deepDiff\<close> only appends to \<open>changes\<close>, and what it appends and the heap it leaves do
  not depend on what \<open>changes\<close> held.
\<close>

lemma accumulate_ex:
  fixes changes :: "rawChange list"
  shows
  "\<exists>h1 new. \<forall>ch. deepDiff hash opt h lhs rhs ch path key stack = (h1, ch @ new)"
  and "\<exists>h1 new. \<forall>ch. compare hash opt h lhs rhs ch path key stack = (h1, ch @ new)"
  and "\<exists>h1 new. \<forall>ch. descend hash opt h lhs rhs ch path stack = (h1, ch @ new)"
  and "\<exists>h1 new. \<forall>ch. arrayLoop hash opt h lhs rhs n ch path stack = (h1, ch @ new)"
  and "\<exists>h1 new rk. \<forall>ch. lhsKeysLoop hash opt h lhs rhs ks rhsKeys ch path stack = (h1, ch @ new, rk)"
  and "\<exists>h1 new. \<forall>ch. rhsKeysLoop hash opt h rhs rks ch path stack = (h1, ch @ new)"
proof (induct hash opt h lhs rhs changes path key stack
    and hash opt h lhs rhs changes path key stack
    and hash opt h lhs rhs changes path stack
    and hash opt h lhs rhs n changes path stack
    and hash opt h lhs rhs ks rhsKeys changes path stack
    and hash opt h rhs rks changes path stack
    rule: deepDiff_compare_descend_arrayLoop_lhsKeysLoop_rhsKeysLoop.induct)
  case (1 hash opt h lhs rhs changes path key stack)
  show ?case
  proof (cases "keyTruthy key \<and> prefiltered opt path (keyString key)")
    case True
    then show ?thesis by (simp add: deepDiff.simps)
  next
    case False
    from 1 [OF False] obtain h1 new where
      "\<And>ch. compare hash opt h (stringIf (bothRegexp h lhs rhs) h lhs)
         (stringIf (bothRegexp h lhs rhs) h rhs) ch (pathWith path key) key stack = (h1, ch @ new)"
      by blast
    with False show ?thesis by (auto simp add: deepDiff.simps)
  qed
next
  case (2 hash opt h lhs rhs changes currentPath key stack)
  show ?case
  proof (cases "\<not> (\<not> defined h lhs (map frame_lhs stack) key \<and> defined h rhs (map frame_rhs stack) key)
      \<and> \<not> (\<not> defined h rhs (map frame_rhs stack) key \<and> defined h lhs (map frame_lhs stack) key)
      \<and> \<not> realTypeOf h lhs \<noteq> realTypeOf h rhs
      \<and> \<not> (realTypeOf h lhs = ''date'' \<and> minusNonZero (timeValue h lhs) (timeValue h rhs))
      \<and> (truthy lhs \<and> truthy rhs \<and> typeofObject lhs) \<and> \<not> onStack stack lhs \<and> validRef h lhs")
    case True
    have "\<exists>h1 new. \<forall>ch. descend hash opt h lhs rhs ch currentPath (stack @ [Frame lhs rhs])
        = (h1, ch @ new)"
      by (rule 2) (use True in blast)+
    then obtain h1 new where
      "\<And>ch. descend hash opt h lhs rhs ch currentPath (stack @ [Frame lhs rhs]) = (h1, ch @ new)"
      by blast
    with True show ?thesis
      by (intro exI [of _ h1] exI [of _ new]) (auto simp add: compare.simps)
  next
    case False
    then show ?thesis
      by (intro exI [of _ "fst (compare hash opt h lhs rhs [] currentPath key stack)"]
                exI [of _ "snd (compare hash opt h lhs rhs [] currentPath key stack)"])
         (auto simp add: compare.simps)
  qed
next
  case (3 hash opt h lhs rhs changes currentPath stack)
  show ?case
  proof (cases "isArray h lhs")
    case True
    from 3(1) [OF True refl] obtain h1 new where
      "\<And>ch. arrayLoop hash opt (sortBoth hash opt h lhs rhs) lhs rhs
          (min (length (elems (sortBoth hash opt h lhs rhs) rhs))
               (length (elems (sortBoth hash opt h lhs rhs) lhs))) ch currentPath stack
        = (h1, ch @ new)"
      by blast
    with True show ?thesis by (auto simp add: descend.simps Let_def)
  next
    case False
    from 3(2) [OF False] obtain h1 new1 rk where
      l: "\<And>ch. lhsKeysLoop hash opt h lhs rhs (keys h lhs) (map Some (keys h rhs)) ch
            currentPath stack = (h1, ch @ new1, rk)"
      by blast
    from 3(3) [OF False, of h1 "(changes @ new1, rk)" "changes @ new1" rk] l
    obtain h2 new2 where
      "\<And>ch. rhsKeysLoop hash opt h1 rhs rk ch currentPath stack = (h2, ch @ new2)"
      by auto
    with False l show ?thesis by (auto simp add: descend.simps)
  qed
next
  case (4 hash opt h lhs rhs changes path stack)
  show ?case by simp
next
  case (5 hash opt h lhs rhs i changes path stack)
  from 5(1) obtain h1 new1 where
    d: "\<And>ch. deepDiff hash opt h (at (elems h lhs) i) (at (elems h rhs) i) ch path
          (Some (showNat i)) stack = (h1, ch @ new1)"
    by blast
  from 5(2) [of h1 "changes @ new1"] d obtain h2 new2 where
    "\<And>ch. arrayLoop hash opt h1 lhs rhs i ch path stack = (h2, ch @ new2)"
    by auto
  with d show ?case by auto
next
  case (6 hash opt h lhs rhs rhsKeys changes path stack)
  show ?case by simp
next
  case (7 hash opt h lhs rhs lhsKey ks rhsKeys changes path stack)
  show ?case
  proof (cases "indexOf (Some lhsKey) rhsKeys")
    case None
    from 7(1) [OF None] obtain h1 new1 where
      d: "\<And>ch. deepDiff hash opt h (getProp h lhs lhsKey) VNull ch path (Some lhsKey) stack
            = (h1, ch @ new1)"
      by blast
    from 7(2) [OF None, of h1 "changes @ new1"] d obtain h2 new2 rk where
      "\<And>ch. lhsKeysLoop hash opt h1 lhs rhs ks rhsKeys ch path stack = (h2, ch @ new2, rk)"
      by auto
    with None d show ?thesis by auto
  next
    case (Some other)
    from 7(3) [OF Some] obtain h1 new1 where
      d: "\<And>ch. deepDiff hash opt h (getProp h lhs lhsKey) (getProp h rhs lhsKey) ch path
            (Some lhsKey) stack = (h1, ch @ new1)"
      by blast
    from 7(4) [OF Some, of h1 "changes @ new1"] d obtain h2 new2 rk where
      "\<And>ch. lhsKeysLoop hash opt h1 lhs rhs ks (rhsKeys[other := None]) ch path stack
          = (h2, ch @ new2, rk)"
      by auto
    with Some d show ?thesis by auto
  qed
next
  case (8 hash opt h rhs changes path stack)
  show ?case by simp
next
  case (9 hash opt h rhs rhsKey ks changes path stack)
  show ?case
  proof (cases "keyTruthy rhsKey")
    case True
    from 9(1) [OF True] obtain h1 new1 where
      d: "\<And>ch. deepDiff hash opt h VNull (getProp h rhs (keyString rhsKey)) ch path rhsKey stack
            = (h1, ch @ new1)"
      by blast
    from 9(2) [OF True, of h1 "changes @ new1"] d obtain h2 new2 where
      "\<And>ch. rhsKeysLoop hash opt h1 rhs ks ch path stack = (h2, ch @ new2)"
      by auto
    with True d show ?thesis by auto
  next
    case False
    with 9(3) show ?thesis by auto
  qed
qed

lemma deepDiff_changes:
  "deepDiff hash opt h lhs rhs ch path key stack =
     (fst (deepDiff hash opt h lhs rhs [] path key stack),
      ch @ snd (deepDiff hash opt h lhs rhs [] path key stack))"
proof -
  obtain h1 new where "\<And>c. deepDiff hash opt h lhs rhs c path key stack = (h1, c @ new)"
    using accumulate_ex(1) [of hash opt h lhs rhs path key stack] by blast
  then show ?thesis by simp
qed

lemma arrayLoop_changes:
  "arrayLoop hash opt h lhs rhs n ch path stack =
     (fst (arrayLoop hash opt h lhs rhs n [] path stack),
      ch @ snd (arrayLoop hash opt h lhs rhs n [] path stack))"
proof -
  obtain h1 new where "\<And>c. arrayLoop hash opt h lhs rhs n c path stack = (h1, c @ new)"
    using accumulate_ex(4) [of hash opt h lhs rhs n path stack] by blast
  then show ?thesis by simp
qed

lemma tailNew_eq:
  "tailNew p ys i j = map (\<lambda>k. RawA p k (ItemN (at ys k))) (rev [j..<i])"
  by (induction i) auto

lemma tailDeleted_eq:
  "tailDeleted p xs j i = map (\<lambda>k. RawA p k (ItemD (at xs k))) (rev [i..<j])"
  by (induction j) auto

lemma isArray_lookup: "lookup h a = Some (Arr xs) \<Longrightarrow> isArray h (VRef a)"
  by (simp add: isArray_def)

lemma deepDiff_same_number:
  "n \<noteq> 0 \<Longrightarrow> deepDiff hash opt h (VNum (Num n)) (VNum (Num n)) ch p k st = (h, ch)"
  by (simp add: deepDiff_simps bothRegexp_def realTypeOf_def stringIf_def defined_def
      strictEq_def)

lemma length_sorted [simp]:
  "length (filter (\<lambda>x. x \<noteq> VUndef) xs) + length (filter (\<lambda>x. x = VUndef) xs) = length xs"
  using sum_length_filter_compl [of "\<lambda>x. x \<noteq> VUndef" xs] by simp

lemma tail_growth:
  assumes a: "lookup h l = Some (Arr xs) \<and> lookup h r = Some (Arr ys) \<and> length xs < length ys"
  shows "let h1 = sortBoth hash opt h (VRef l) (VRef r);
           xs1 = elems h1 (VRef l);
           ys1 = elems h1 (VRef r)
       in length xs1 = length xs \<and> length ys1 = length ys \<and>
          diff hash opt h (VRef l) (VRef r) =
            map (\<lambda>i. RawA [] i (ItemN (ys1 ! i))) (rev [length xs..<length ys]) @
            snd (arrayLoop hash opt h1 (VRef l) (VRef r) (length xs) [] []
                   [Frame (VRef l) (VRef r)])"
proof -
  from a have lr: "l \<noteq> r" by auto
  define h1 where "h1 = sortBoth hash opt h (VRef l) (VRef r)"
  have len: "length (elems h1 (VRef l)) = length xs" "length (elems h1 (VRef r)) = length ys"
    using a lr
    by (auto simp: h1_def sortBoth_def sortArray_def elems_def lookup_def split: if_splits)
  have tl: "tailChanges [] (elems h1 (VRef l)) (elems h1 (VRef r)) =
      map (\<lambda>i. RawA [] i (ItemN (elems h1 (VRef r) ! i))) (rev [length xs..<length ys])"
    using a len by (simp add: tailChanges_def tailNew_eq tailDeleted_eq at_def)
  have "diff hash opt h (VRef l) (VRef r) =
      snd (arrayLoop hash opt h1 (VRef l) (VRef r) (length xs)
             (tailChanges [] (elems h1 (VRef l)) (elems h1 (VRef r))) []
             [Frame (VRef l) (VRef r)])"
    using a len
    by (simp add: diff_def deepDiff_simps validRef_lookup isArray_lookup realTypeOf_def
        bothRegexp_def onStack_def Let_def h1_def [symmetric] min_def)
  then show ?thesis
    using len tl
    by (simp add: Let_def h1_def [symmetric] arrayLoop_changes [of _ _ _ _ _ _ "map _ _"])
qed

lemma forEach_traced:
  "forEach (traced f) cs (s, log) =
     (case forEach f cs s of Inl e \<Rightarrow> Inl e | Inr s1 \<Rightarrow> Inr (s1, log @ cs))"
  by (induction cs arbitrary: s log) (auto simp: traced_def split: sum.splits)

lemma forEach_total:
  "(\<And>c s. \<exists>s1. f c s = Inr s1) \<Longrightarrow> \<exists>s1. forEach f cs s = Inr s1"
proof (induction cs arbitrary: s)
  case Nil
  then show ?case by simp
next
  case (Cons c cs)
  from Cons.prems obtain s1 where "f c s = Inr s1" by blast
  with Cons show ?case by simp
qed

lemma forEach_arrayPush: "forEach arrayPush cs xs = Inr (xs @ cs)"
  by (induction cs arbitrary: xs) (simp_all add: arrayPush_def)

lemma forEach_noPush:
  "forEach (accumObserver None) cs s = (if cs = [] then Inr s else Inl AccumError)"
  by (cases cs) (simp_all add: accumObserver_def)

lemma compare_changes:
  "compare hash opt h lhs rhs ch path key stack =
     (fst (compare hash opt h lhs rhs [] path key stack),
      ch @ snd (compare hash opt h lhs rhs [] path key stack))"
proof -
  obtain h1 new where "\<And>c. compare hash opt h lhs rhs c path key stack = (h1, c @ new)"
    using accumulate_ex(2) [of hash opt h lhs rhs path key stack] by blast
  then show ?thesis by simp
qed

lemma descend_changes:
  "descend hash opt h lhs rhs ch path stack =
     (fst (descend hash opt h lhs rhs [] path stack),
      ch @ snd (descend hash opt h lhs rhs [] path stack))"
proof -
  obtain h1 new where "\<And>c. descend hash opt h lhs rhs c path stack = (h1, c @ new)"
    using accumulate_ex(3) [of hash opt h lhs rhs path stack] by blast
  then show ?thesis by simp
qed

lemma lhsKeysLoop_changes:
  "lhsKeysLoop hash opt h lhs rhs ks rhsKeys ch path stack =
     (fst (lhsKeysLoop hash opt h lhs rhs ks rhsKeys [] path stack),
      ch @ fst (snd (lhsKeysLoop hash opt h lhs rhs ks rhsKeys [] path stack)),
      snd (snd (lhsKeysLoop hash opt h lhs rhs ks rhsKeys [] path stack)))"
proof -
  obtain h1 new rk where
    "\<And>c. lhsKeysLoop hash opt h lhs rhs ks rhsKeys c path stack = (h1, c @ new, rk)"
    using accumulate_ex(5) [of hash opt h lhs rhs ks rhsKeys path stack] by blast
  then show ?thesis by simp
qed

lemma rhsKeysLoop_changes:
  "rhsKeysLoop hash opt h rhs rks ch path stack =
     (fst (rhsKeysLoop hash opt h rhs rks [] path stack),
      ch @ snd (rhsKeysLoop hash opt h rhs rks [] path stack))"
proof -
  obtain h1 new where "\<And>c. rhsKeysLoop hash opt h rhs rks c path stack = (h1, c @ new)"
    using accumulate_ex(6) [of hash opt h rhs rks path stack] by blast
  then show ?thesis by simp
qed

text \<open>The equations of the six functions, with what each call appends made explicit.\<close>

lemma deepDiff_eq:
  "deepDiff hash opt h lhs rhs ch path key stack =
    (if keyTruthy key \<and> prefiltered opt path (keyString key) then (h, ch)
     else
       (fst (compare hash opt h (stringIf (bothRegexp h lhs rhs) h lhs)
              (stringIf (bothRegexp h lhs rhs) h rhs) [] (pathWith path key) key stack),
        ch @ snd (compare hash opt h (stringIf (bothRegexp h lhs rhs) h lhs)
              (stringIf (bothRegexp h lhs rhs) h rhs) [] (pathWith path key) key stack)))"
  by (subst deepDiff.simps, subst compare_changes) simp

lemma descend_eq:
  "descend hash opt h lhs rhs ch currentPath stack =
    (if isArray h lhs then
       (fst (arrayLoop hash opt (sortBoth hash opt h lhs rhs) lhs rhs
               (min (length (elems (sortBoth hash opt h lhs rhs) rhs))
                    (length (elems (sortBoth hash opt h lhs rhs) lhs))) [] currentPath stack),
        ch @ tailChanges currentPath (elems (sortBoth hash opt h lhs rhs) lhs)
               (elems (sortBoth hash opt h lhs rhs) rhs) @
        snd (arrayLoop hash opt (sortBoth hash opt h lhs rhs) lhs rhs
               (min (length (elems (sortBoth hash opt h lhs rhs) rhs))
                    (length (elems (sortBoth hash opt h lhs rhs) lhs))) [] currentPath stack))
     else
       (fst (rhsKeysLoop hash opt
               (fst (lhsKeysLoop hash opt h lhs rhs (keys h lhs) (map Some (keys h rhs)) []
                       currentPath stack))
               rhs
               (snd (snd (lhsKeysLoop hash opt h lhs rhs (keys h lhs) (map Some (keys h rhs)) []
                       currentPath stack)))
               [] currentPath stack),
        ch @ fst (snd (lhsKeysLoop hash opt h lhs rhs (keys h lhs) (map Some (keys h rhs)) []
                       currentPath stack)) @
        snd (rhsKeysLoop hash opt
               (fst (lhsKeysLoop hash opt h lhs rhs (keys h lhs) (map Some (keys h rhs)) []
                       currentPath stack))
               rhs
               (snd (snd (lhsKeysLoop hash opt h lhs rhs (keys h lhs) (map Some (keys h rhs)) []
                       currentPath stack)))
               [] currentPath stack)))"
proof (cases "isArray h lhs")
  case True
  obtain h1 new where
    a: "\<And>c. arrayLoop hash opt (sortBoth hash opt h lhs rhs) lhs rhs
               (min (length (elems (sortBoth hash opt h lhs rhs) rhs))
                    (length (elems (sortBoth hash opt h lhs rhs) lhs))) c currentPath stack
         = (h1, c @ new)"
    using accumulate_ex(4) by blast
  show ?thesis using True by (simp add: descend.simps Let_def a)
next
  case False
  obtain h1 new1 rk where
    l: "\<And>c. lhsKeysLoop hash opt h lhs rhs (keys h lhs) (map Some (keys h rhs)) c
            currentPath stack = (h1, c @ new1, rk)"
    using accumulate_ex(5) by blast
  obtain h2 new2 where
    r: "\<And>c. rhsKeysLoop hash opt h1 rhs rk c currentPath stack = (h2, c @ new2)"
    using accumulate_ex(6) by blast
  show ?thesis using False by (simp add: descend.simps l r)
qed

lemma arrayLoop_Suc:
  "arrayLoop hash opt h lhs rhs (Suc i) ch path stack =
    (fst (arrayLoop hash opt
            (fst (deepDiff hash opt h (at (elems h lhs) i) (at (elems h rhs) i) [] path
                    (Some (showNat i)) stack))
            lhs rhs i [] path stack),
     ch @ snd (deepDiff hash opt h (at (elems h lhs) i) (at (elems h rhs) i) [] path
                 (Some (showNat i)) stack) @
     snd (arrayLoop hash opt
            (fst (deepDiff hash opt h (at (elems h lhs) i) (at (elems h rhs) i) [] path
                    (Some (showNat i)) stack))
            lhs rhs i [] path stack))"
proof -
  obtain h1 new1 where
    d: "\<And>c. deepDiff hash opt h (at (elems h lhs) i) (at (elems h rhs) i) c path
          (Some (showNat i)) stack = (h1, c @ new1)"
    using accumulate_ex(1) by blast
  obtain h2 new2 where
    a: "\<And>c. arrayLoop hash opt h1 lhs rhs i c path stack = (h2, c @ new2)"
    using accumulate_ex(4) by blast
  show ?thesis by (simp add: d a)
qed

lemma lhsKeysLoop_Cons:
  "lhsKeysLoop hash opt h lhs rhs (lhsKey # ks) rhsKeys ch path stack =
    (let d = deepDiff hash opt h (getProp h lhs lhsKey)
               (case indexOf (Some lhsKey) rhsKeys of
                  None \<Rightarrow> VNull | Some other \<Rightarrow> getProp h rhs lhsKey)
               [] path (Some lhsKey) stack;
         l = lhsKeysLoop hash opt (fst d) lhs rhs ks
               (case indexOf (Some lhsKey) rhsKeys of
                  None \<Rightarrow> rhsKeys | Some other \<Rightarrow> rhsKeys[other := None])
               [] path stack
     in (fst l, ch @ snd d @ fst (snd l), snd (snd l)))"
proof (cases "indexOf (Some lhsKey) rhsKeys")
  case None
  obtain h1 new1 where
    d: "\<And>c. deepDiff hash opt h (getProp h lhs lhsKey) VNull c path (Some lhsKey) stack
          = (h1, c @ new1)"
    using accumulate_ex(1) by blast
  obtain h2 new2 rk where
    l: "\<And>c. lhsKeysLoop hash opt h1 lhs rhs ks rhsKeys c path stack = (h2, c @ new2, rk)"
    using accumulate_ex(5) by blast
  show ?thesis using None by (simp add: d l)
next
  case (Some other)
  obtain h1 new1 where
    d: "\<And>c. deepDiff hash opt h (getProp h lhs lhsKey) (getProp h rhs lhsKey) c path
          (Some lhsKey) stack = (h1, c @ new1)"
    using accumulate_ex(1) by blast
  obtain h2 new2 rk where
    l: "\<And>c. lhsKeysLoop hash opt h1 lhs rhs ks (rhsKeys[other := None]) c path stack
          = (h2, c @ new2, rk)"
    using accumulate_ex(5) by blast
  show ?thesis using Some by (simp add: d l)
qed

lemma rhsKeysLoop_Cons:
  "rhsKeysLoop hash opt h rhs (rhsKey # ks) ch path stack =
    (if keyTruthy rhsKey then
       (let d = deepDiff hash opt h VNull (getProp h rhs (keyString rhsKey)) [] path rhsKey stack;
            r = rhsKeysLoop hash opt (fst d) rhs ks [] path stack
        in (fst r, ch @ snd d @ snd r))
     else
       (fst (rhsKeysLoop hash opt h rhs ks [] path stack),
        ch @ snd (rhsKeysLoop hash opt h rhs ks [] path stack)))"
proof (cases "keyTruthy rhsKey")
  case True
  obtain h1 new1 where
    d: "\<And>c. deepDiff hash opt h VNull (getProp h rhs (keyString rhsKey)) c path rhsKey stack
          = (h1, c @ new1)"
    using accumulate_ex(1) by blast
  obtain h2 new2 where
    r: "\<And>c. rhsKeysLoop hash opt h1 rhs ks c path stack = (h2, c @ new2)"
    using accumulate_ex(6) by blast
  show ?thesis using True by (simp add: d r)
next
  case False
  obtain h2 new2 where
    r: "\<And>c. rhsKeysLoop hash opt h rhs ks c path stack = (h2, c @ new2)"
    using accumulate_ex(6) by blast
  show ?thesis using False by (simp add: r)
qed

text \<open>
  Computation induction for the six functions, with the array \<open>changes\<close> left out: what a
  call appends does not depend on it.
\<close>

lemma deepDiff_induct [case_names deepDiff compare descend arrayLoop0 arrayLoopSuc
    lhsKeysLoopNil lhsKeysLoopCons rhsKeysLoopNil rhsKeysLoopCons]:
  fixes P1 :: "(heap \<Rightarrow> val \<Rightarrow> int) \<Rightarrow> opts \<Rightarrow> heap \<Rightarrow> val \<Rightarrow> val \<Rightarrow> path \<Rightarrow> string option \<Rightarrow>
      frame list \<Rightarrow> bool"
    and P2 :: "(heap \<Rightarrow> val \<Rightarrow> int) \<Rightarrow> opts \<Rightarrow> heap \<Rightarrow> val \<Rightarrow> val \<Rightarrow> path \<Rightarrow> string option \<Rightarrow>
      frame list \<Rightarrow> bool"
    and P3 :: "(heap \<Rightarrow> val \<Rightarrow> int) \<Rightarrow> opts \<Rightarrow> heap \<Rightarrow> val \<Rightarrow> val \<Rightarrow> path \<Rightarrow> frame list \<Rightarrow> bool"
    and P4 :: "(heap \<Rightarrow> val \<Rightarrow> int) \<Rightarrow> opts \<Rightarrow> heap \<Rightarrow> val \<Rightarrow> val \<Rightarrow> nat \<Rightarrow> path \<Rightarrow> frame list \<Rightarrow> bool"
    and P5 :: "(heap \<Rightarrow> val \<Rightarrow> int) \<Rightarrow> opts \<Rightarrow> heap \<Rightarrow> val \<Rightarrow> val \<Rightarrow> string list \<Rightarrow>
      string option list \<Rightarrow> path \<Rightarrow> frame list \<Rightarrow> bool"
    and P6 :: "(heap \<Rightarrow> val \<Rightarrow> int) \<Rightarrow> opts \<Rightarrow> heap \<Rightarrow> val \<Rightarrow> string option list \<Rightarrow> path \<Rightarrow>
      frame list \<Rightarrow> bool"
  assumes "\<And>hash opt h lhs rhs path key stack.
      (\<not> (keyTruthy key \<and> prefiltered opt path (keyString key)) \<Longrightarrow>
       P2 hash opt h (stringIf (bothRegexp h lhs rhs) h lhs)
         (stringIf (bothRegexp h lhs rhs) h rhs) (pathWith path key) key stack) \<Longrightarrow>
      P1 hash opt h lhs rhs path key stack"
    and "\<And>hash opt h lhs rhs currentPath key stack.
      (\<lbrakk>\<not> (\<not> defined h lhs (map frame_lhs stack) key \<and> defined h rhs (map frame_rhs stack) key);
        \<not> (\<not> defined h rhs (map frame_rhs stack) key \<and> defined h lhs (map frame_lhs stack) key);
        realTypeOf h lhs = realTypeOf h rhs;
        \<not> (realTypeOf h lhs = ''date'' \<and> minusNonZero (timeValue h lhs) (timeValue h rhs));
        truthy lhs; truthy rhs; typeofObject lhs; \<not> onStack stack lhs; validRef h lhs\<rbrakk>
       \<Longrightarrow> P3 hash opt h lhs rhs currentPath (stack @ [Frame lhs rhs])) \<Longrightarrow>
      P2 hash opt h lhs rhs currentPath key stack"
    and "\<And>hash opt h lhs rhs currentPath stack.
      \<lbrakk>isArray h lhs \<Longrightarrow>
         P4 hash opt (sortBoth hash opt h lhs rhs) lhs rhs
           (min (length (elems (sortBoth hash opt h lhs rhs) rhs))
                (length (elems (sortBoth hash opt h lhs rhs) lhs))) currentPath stack;
       \<not> isArray h lhs \<Longrightarrow>
         P5 hash opt h lhs rhs (keys h lhs) (map Some (keys h rhs)) currentPath stack;
       \<not> isArray h lhs \<Longrightarrow>
         P6 hash opt
           (fst (lhsKeysLoop hash opt h lhs rhs (keys h lhs) (map Some (keys h rhs)) []
                   currentPath stack))
           rhs
           (snd (snd (lhsKeysLoop hash opt h lhs rhs (keys h lhs) (map Some (keys h rhs)) []
                   currentPath stack)))
           currentPath stack\<rbrakk>
      \<Longrightarrow> P3 hash opt h lhs rhs currentPath stack"
    and "\<And>hash opt h lhs rhs path stack. P4 hash opt h lhs rhs 0 path stack"
    and "\<And>hash opt h lhs rhs i path stack.
      \<lbrakk>P1 hash opt h (at (elems h lhs) i) (at (elems h rhs) i) path (Some (showNat i)) stack;
       P4 hash opt
         (fst (deepDiff hash opt h (at (elems h lhs) i) (at (elems h rhs) i) [] path
                 (Some (showNat i)) stack))
         lhs rhs i path stack\<rbrakk>
      \<Longrightarrow> P4 hash opt h lhs rhs (Suc i) path stack"
    and "\<And>hash opt h lhs rhs rhsKeys path stack. P5 hash opt h lhs rhs [] rhsKeys path stack"
    and "\<And>hash opt h lhs rhs lhsKey ks rhsKeys path stack.
      \<lbrakk>P1 hash opt h (getProp h lhs lhsKey)
         (case indexOf (Some lhsKey) rhsKeys of
            None \<Rightarrow> VNull | Some other \<Rightarrow> getProp h rhs lhsKey)
         path (Some lhsKey) stack;
       P5 hash opt
         (fst (deepDiff hash opt h (getProp h lhs lhsKey)
                 (case indexOf (Some lhsKey) rhsKeys of
                    None \<Rightarrow> VNull | Some other \<Rightarrow> getProp h rhs lhsKey)
                 [] path (Some lhsKey) stack))
         lhs rhs ks
         (case indexOf (Some lhsKey) rhsKeys of
            None \<Rightarrow> rhsKeys | Some other \<Rightarrow> rhsKeys[other := None])
         path stack\<rbrakk>
      \<Longrightarrow> P5 hash opt h lhs rhs (lhsKey # ks) rhsKeys path stack"
    and "\<And>hash opt h rhs path stack. P6 hash opt h rhs [] path stack"
    and "\<And>hash opt h rhs rhsKey ks path stack.
      \<lbrakk>keyTruthy rhsKey \<Longrightarrow>
         P1 hash opt h VNull (getProp h rhs (keyString rhsKey)) path rhsKey stack;
       keyTruthy rhsKey \<Longrightarrow>
         P6 hash opt
           (fst (deepDiff hash opt h VNull (getProp h rhs (keyString rhsKey)) [] path rhsKey
                   stack))
           rhs ks path stack;
       \<not> keyTruthy rhsKey \<Longrightarrow> P6 hash opt h rhs ks path stack\<rbrakk>
      \<Longrightarrow> P6 hash opt h rhs (rhsKey # ks) path stack"
  shows "P1 hash opt h lhs rhs path key stack"
    and "P2 hash opt h lhs rhs path key stack"
    and "P3 hash opt h lhs rhs path stack"
    and "P4 hash opt h lhs rhs n path stack"
    and "P5 hash opt h lhs rhs ks rhsKeys path stack"
    and "P6 hash opt h rhs rks path stack"
proof -
  fix changes :: "rawChange list"
  have "P1 hash opt h lhs rhs path key stack \<and> True"
    and "P2 hash opt h lhs rhs path key stack \<and> True"
    and "P3 hash opt h lhs rhs path stack \<and> True"
    and "P4 hash opt h lhs rhs n path stack \<and> True"
    and "P5 hash opt h lhs rhs ks rhsKeys path stack \<and> True"
    and "P6 hash opt h rhs rks path stack \<and> True"
  proof (induct hash opt h lhs rhs changes path key stack
      and hash opt h lhs rhs changes path key stack
      and hash opt h lhs rhs changes path stack
      and hash opt h lhs rhs n changes path stack
      and hash opt h lhs rhs ks rhsKeys changes path stack
      and hash opt h rhs rks changes path stack
      rule: deepDiff_compare_descend_arrayLoop_lhsKeysLoop_rhsKeysLoop.induct)
    case (1 hash opt h lhs rhs changes path key stack)
    then show ?case using assms(1) by blast
  next
    case (2 hash opt h lhs rhs changes currentPath key stack)
    show ?case
      by (rule conjI [OF _ TrueI], rule assms(2)) (use 2 in simp)
  next
    case (3 hash opt h lhs rhs changes currentPath stack)
    have l: "lhsKeysLoop hash opt h lhs rhs (keys h lhs) (map Some (keys h rhs)) changes
          currentPath stack =
        (fst (lhsKeysLoop hash opt h lhs rhs (keys h lhs) (map Some (keys h rhs)) []
                currentPath stack),
         changes @ fst (snd (lhsKeysLoop hash opt h lhs rhs (keys h lhs) (map Some (keys h rhs)) []
                currentPath stack)),
         snd (snd (lhsKeysLoop hash opt h lhs rhs (keys h lhs) (map Some (keys h rhs)) []
                currentPath stack)))"
      by (rule lhsKeysLoop_changes)
    show ?case
    proof (rule conjI [OF _ TrueI], rule assms(3))
      assume "isArray h lhs"
      then show "P4 hash opt (sortBoth hash opt h lhs rhs) lhs rhs
           (min (length (elems (sortBoth hash opt h lhs rhs) rhs))
                (length (elems (sortBoth hash opt h lhs rhs) lhs))) currentPath stack"
        using 3(1) by blast
    next
      assume "\<not> isArray h lhs"
      then show "P5 hash opt h lhs rhs (keys h lhs) (map Some (keys h rhs)) currentPath stack"
        using 3(2) by blast
    next
      assume n: "\<not> isArray h lhs"
      show "P6 hash opt
           (fst (lhsKeysLoop hash opt h lhs rhs (keys h lhs) (map Some (keys h rhs)) []
                   currentPath stack))
           rhs
           (snd (snd (lhsKeysLoop hash opt h lhs rhs (keys h lhs) (map Some (keys h rhs)) []
                   currentPath stack)))
           currentPath stack"
        using 3(3) [OF n l [symmetric] refl] by blast
    qed
  next
    case (4 hash opt h lhs rhs changes path stack)
    show ?case using assms(4) by blast
  next
    case (5 hash opt h lhs rhs i changes path stack)
    have d: "(fst (deepDiff hash opt h (at (elems h lhs) i) (at (elems h rhs) i) [] path
                 (Some (showNat i)) stack),
              changes @ snd (deepDiff hash opt h (at (elems h lhs) i) (at (elems h rhs) i) [] path
                 (Some (showNat i)) stack)) =
        deepDiff hash opt h (at (elems h lhs) i) (at (elems h rhs) i) changes path
                 (Some (showNat i)) stack"
      by (rule deepDiff_changes [symmetric])
    show ?case
      by (rule conjI [OF _ TrueI], rule assms(5)) (use 5(1) 5(2) [OF d] in blast)+
  next
    case (6 hash opt h lhs rhs rhsKeys changes path stack)
    show ?case using assms(6) by blast
  next
    case (7 hash opt h lhs rhs lhsKey ks rhsKeys changes path stack)
    show ?case
    proof (cases "indexOf (Some lhsKey) rhsKeys")
      case None
      have d: "(fst (deepDiff hash opt h (getProp h lhs lhsKey) VNull [] path (Some lhsKey) stack),
                changes @ snd (deepDiff hash opt h (getProp h lhs lhsKey) VNull [] path
                   (Some lhsKey) stack)) =
          deepDiff hash opt h (getProp h lhs lhsKey) VNull changes path (Some lhsKey) stack"
        by (rule deepDiff_changes [symmetric])
      show ?thesis
        by (rule conjI [OF _ TrueI], rule assms(7))
          (use None 7(1) [OF None] 7(2) [OF None d] in simp_all)
    next
      case (Some other)
      have d: "(fst (deepDiff hash opt h (getProp h lhs lhsKey) (getProp h rhs lhsKey) [] path
                  (Some lhsKey) stack),
                changes @ snd (deepDiff hash opt h (getProp h lhs lhsKey) (getProp h rhs lhsKey)
                   [] path (Some lhsKey) stack)) =
          deepDiff hash opt h (getProp h lhs lhsKey) (getProp h rhs lhsKey) changes path
            (Some lhsKey) stack"
        by (rule deepDiff_changes [symmetric])
      show ?thesis
        by (rule conjI [OF _ TrueI], rule assms(7))
          (use Some 7(3) [OF Some] 7(4) [OF Some d] in simp_all)
    qed
  next
    case (8 hash opt h rhs changes path stack)
    show ?case using assms(8) by blast
  next
    case (9 hash opt h rhs rhsKey ks changes path stack)
    have d: "(fst (deepDiff hash opt h VNull (getProp h rhs (keyString rhsKey)) [] path rhsKey
                  stack),
              changes @ snd (deepDiff hash opt h VNull (getProp h rhs (keyString rhsKey)) [] path
                  rhsKey stack)) =
        deepDiff hash opt h VNull (getProp h rhs (keyString rhsKey)) changes path rhsKey stack"
      by (rule deepDiff_changes [symmetric])
    show ?case
    proof (rule conjI [OF _ TrueI], rule assms(9))
      assume t: "keyTruthy rhsKey"
      then show "P1 hash opt h VNull (getProp h rhs (keyString rhsKey)) path rhsKey stack"
        using 9(1) by blast
      show "P6 hash opt
           (fst (deepDiff hash opt h VNull (getProp h rhs (keyString rhsKey)) [] path rhsKey
                   stack))
           rhs ks path stack"
        using 9(2) [OF t d] by blast
    next
      assume "\<not> keyTruthy rhsKey"
      then show "P6 hash opt h rhs ks path stack" using 9(3) by blast
    qed
  qed
  then show "P1 hash opt h lhs rhs path key stack"
    and "P2 hash opt h lhs rhs path key stack"
    and "P3 hash opt h lhs rhs path stack"
    and "P4 hash opt h lhs rhs n path stack"
    and "P5 hash opt h lhs rhs ks rhsKeys path stack"
    and "P6 hash opt h rhs rks path stack"
    by blast+
qed

declare arrayLoop.simps(2) [simp del] lhsKeysLoop.simps(2) [simp del]
  rhsKeysLoop.simps(2) [simp del]

lemma compare_eq:
  "compare hash opt h lhs rhs ch currentPath key stack =
    (if \<not> defined h lhs (map frame_lhs stack) key \<and> defined h rhs (map frame_rhs stack) key
       then (h, ch @ [RawN currentPath rhs])
     else if \<not> defined h rhs (map frame_rhs stack) key \<and> defined h lhs (map frame_lhs stack) key
       then (h, ch @ [RawD currentPath lhs])
     else if realTypeOf h lhs \<noteq> realTypeOf h rhs
       then (h, ch @ [RawE currentPath lhs rhs])
     else if realTypeOf h lhs = ''date'' \<and> minusNonZero (timeValue h lhs) (timeValue h rhs)
       then (h, ch @ [RawE currentPath lhs rhs])
     else if truthy lhs \<and> truthy rhs \<and> typeofObject lhs then
       (if \<not> onStack stack lhs then
          (if validRef h lhs
           then (fst (descend hash opt h lhs rhs [] currentPath (stack @ [Frame lhs rhs])),
                 ch @ snd (descend hash opt h lhs rhs [] currentPath (stack @ [Frame lhs rhs])))
           else (h, ch))
        else if \<not> strictEq lhs rhs then (h, ch @ [RawE currentPath lhs rhs])
        else (h, ch))
     else if \<not> strictEq lhs rhs then
       (if \<not> (isNaN lhs \<and> isNaN rhs) then (h, ch @ [RawE currentPath lhs rhs])
        else (h, ch))
     else (h, ch))"
  by (subst compare.simps, subst descend_changes) simp

lemma heap_unchanged:
  "\<not> orderIndependent opt \<Longrightarrow> fst (deepDiff hash opt h lhs rhs [] path key stack) = h"
  "\<not> orderIndependent opt \<Longrightarrow> fst (compare hash opt h lhs rhs [] path key stack) = h"
  "\<not> orderIndependent opt \<Longrightarrow> fst (descend hash opt h lhs rhs [] path stack) = h"
  "\<not> orderIndependent opt \<Longrightarrow> fst (arrayLoop hash opt h lhs rhs n [] path stack) = h"
  "\<not> orderIndependent opt \<Longrightarrow>
     fst (lhsKeysLoop hash opt h lhs rhs ks rhsKeys [] path stack) = h"
  "\<not> orderIndependent opt \<Longrightarrow> fst (rhsKeysLoop hash opt h rhs rks [] path stack) = h"
proof (induct rule: deepDiff_induct)
  case (deepDiff hash opt h lhs rhs path key stack)
  then show ?case by (simp add: deepDiff_eq)
next
  case (compare hash opt h lhs rhs currentPath key stack)
  then show ?case by (simp add: compare_eq)
next
  case (descend hash opt h lhs rhs currentPath stack)
  then show ?case by (simp add: descend_eq sortBoth_def)
next
  case (arrayLoopSuc hash opt h lhs rhs i path stack)
  then show ?case by (simp add: arrayLoop_Suc)
next
  case (lhsKeysLoopCons hash opt h lhs rhs lhsKey ks rhsKeys path stack)
  then show ?case by (simp add: lhsKeysLoop_Cons Let_def)
next
  case (rhsKeysLoopCons hash opt h rhs rhsKey ks path stack)
  then show ?case by (simp add: rhsKeysLoop_Cons Let_def)
qed simp_all

text \<open>
  Every record that a call appends has the current path of the call as a prefix of its
  path.
\<close>

lemma prefix_pathWith [simp]: "prefix p (pathWith p key)"
  by (simp add: pathWith_def)

lemma prefix_pathWith_up: "prefix (pathWith p key) q \<Longrightarrow> prefix p q"
  using prefix_order.order_trans [OF prefix_pathWith] by blast

lemma rawPath_tailChanges: "c \<in> set (tailChanges p xs ys) \<Longrightarrow> rawPath c = p"
  by (auto simp: tailChanges_def tailNew_eq tailDeleted_eq)

lemma paths_extend:
  "\<forall>c \<in> set (snd (deepDiff hash opt h lhs rhs [] path key stack)).
     prefix (pathWith path key) (rawPath c)"
  "\<forall>c \<in> set (snd (compare hash opt h lhs rhs [] path key stack)). prefix path (rawPath c)"
  "\<forall>c \<in> set (snd (descend hash opt h lhs rhs [] path stack)). prefix path (rawPath c)"
  "\<forall>c \<in> set (snd (arrayLoop hash opt h lhs rhs n [] path stack)). prefix path (rawPath c)"
  "\<forall>c \<in> set (fst (snd (lhsKeysLoop hash opt h lhs rhs ks rhsKeys [] path stack))).
     \<exists>k \<in> set ks. prefix (pathWith path (Some k)) (rawPath c)"
  "\<forall>c \<in> set (snd (rhsKeysLoop hash opt h rhs rks [] path stack)).
     \<exists>k \<in> set rks. keyTruthy k \<and> prefix (pathWith path k) (rawPath c)"
proof (induct rule: deepDiff_induct)
  case (deepDiff hash opt h lhs rhs path key stack)
  then show ?case by (simp add: deepDiff_eq)
next
  case (compare hash opt h lhs rhs currentPath key stack)
  then show ?case by (simp add: compare_eq)
next
  case (descend hash opt h lhs rhs currentPath stack)
  then show ?case
    by (auto simp: descend_eq rawPath_tailChanges) (blast intro: prefix_pathWith_up)+
next
  case (arrayLoopSuc hash opt h lhs rhs i path stack)
  then show ?case
    by (auto simp: arrayLoop_Suc intro: prefix_pathWith_up)
next
  case (lhsKeysLoopCons hash opt h lhs rhs lhsKey ks rhsKeys path stack)
  then show ?case by (auto simp: lhsKeysLoop_Cons Let_def)
next
  case (rhsKeysLoopCons hash opt h rhs rhsKey ks path stack)
  then show ?case by (auto simp: rhsKeysLoop_Cons Let_def)
qed simp_all

lemma rhsKeysLoop_filter:
  "rhsKeysLoop hash opt h rhs rks ch path stack =
   rhsKeysLoop hash opt h rhs (filter keyTruthy rks) ch path stack"
  by (induction rks arbitrary: h ch) (simp_all add: rhsKeysLoop.simps split: prod.splits)

lemma lhsKeysLoop_rhsKeys:
  "set (snd (snd (lhsKeysLoop hash opt h lhs rhs ks rhsKeys ch path stack))) \<subseteq>
     insert None (set rhsKeys)"
proof (induction ks arbitrary: h rhsKeys ch)
  case Nil
  then show ?case by auto
next
  case (Cons k ks)
  have "set (rhsKeys[i := None]) \<subseteq> insert None (set rhsKeys)" for i
    by (rule set_update_subset_insert)
  with Cons show ?case
    by (simp add: lhsKeysLoop.simps split: option.splits prod.splits) blast
qed

lemma plain_root_paths:
  assumes l: "lookup h l = Some (Plain ps)" and r: "lookup h r = Some (Plain qs)"
    and e: "[] \<notin> fst ` set ps"
    and c: "c \<in> set (diff hash opt h (VRef l) (VRef r))"
  shows "\<exists>k q. rawPath c = k # q \<and> k \<noteq> [] \<and> k \<in> fst ` set ps \<union> fst ` set qs"
proof -
  let ?L = "lhsKeysLoop hash opt h (VRef l) (VRef r) (map fst ps) (map Some (map fst qs)) [] []
      [Frame (VRef l) (VRef r)]"
  let ?R = "rhsKeysLoop hash opt (fst ?L) (VRef r) (snd (snd ?L)) [] [] [Frame (VRef l) (VRef r)]"
  have d: "diff hash opt h (VRef l) (VRef r) = fst (snd ?L) @ snd ?R"
    using l r
    by (simp add: diff_def deepDiff_eq compare_eq descend_eq validRef_lookup isArray_def
        keys_def realTypeOf_def bothRegexp_def onStack_def)
  from c d consider "c \<in> set (fst (snd ?L))" | "c \<in> set (snd ?R)" by auto
  then show ?thesis
  proof cases
    case 1
    then obtain k where k: "k \<in> set (map fst ps)" "prefix (pathWith [] (Some k)) (rawPath c)"
      using paths_extend(5) by blast
    with e have "k \<noteq> []" by force
    with k show ?thesis by (auto simp: prefix_def)
  next
    case 2
    then obtain k where k: "k \<in> set (snd (snd ?L))" "keyTruthy k"
      "prefix (pathWith [] k) (rawPath c)"
      using paths_extend(6) by blast
    from k(1) lhsKeysLoop_rhsKeys have "k \<in> insert None (set (map Some (map fst qs)))"
      by blast
    with k(2) obtain s where "k = Some s" "s \<noteq> []" "s \<in> fst ` set qs" by force
    with k(3) show ?thesis by (auto simp: prefix_def)
  qed
qed

lemma arrayLoop_positional:
  "\<not> orderIndependent opt \<Longrightarrow>
   snd (arrayLoop hash opt h lhs rhs n [] p st) =
     concat (map (\<lambda>i. snd (deepDiff hash opt h (at (elems h lhs) i) (at (elems h rhs) i) [] p
                              (Some (showNat i)) st)) (rev [0..<n]))"
  by (induction n) (simp_all add: arrayLoop_Suc heap_unchanged(1))

subsection \<open>The walk of revertChange\<close>

lemma length_writeProp: "writeProp h it k v = Inr h1 \<Longrightarrow> length h1 = length h"
  by (auto simp: writeProp_def split: val.splits option.splits obj.splits if_splits)

lemma walk_length: "walk h pl p = Inr (h1, pl1) \<Longrightarrow> length h \<le> length h1"
proof (induction p arbitrary: h pl)
  case Nil
  then show ?case by simp
next
  case (Cons k ks)
  show ?case
  proof (cases pl)
    case Builtin
    with Cons.prems show ?thesis by simp
  next
    case (Here it)
    note it = this
    show ?thesis
    proof (cases "readChain h it k")
      case (Inl e)
      with Cons.prems it show ?thesis by simp
    next
      case (Inr pl2)
      show ?thesis
      proof (cases "pl2 = Here VUndef")
        case False
        with Inr Cons.prems it have "walk h pl2 ks = Inr (h1, pl1)"
          by (cases pl2) auto
        then show ?thesis by (rule Cons.IH)
      next
        case True
        with Inr Cons.prems it obtain h2 it2 where
          w: "writeProp (h @ [Plain []]) it k (VRef (length h)) = Inr h2"
          and k: "walk h2 it2 ks = Inr (h1, pl1)"
          by (auto simp: newObject_def split: sum.splits)
        from k have "length h2 \<le> length h1" by (rule Cons.IH)
        with length_writeProp [OF w] show ?thesis by simp
      qed
    qed
  qed
qed

lemma walk_created:
  assumes "readChain h it k = Inr (Here VUndef)" "ks \<noteq> []"
  shows "walk h (Here it) (butlast (k # ks)) \<noteq> Inr (h, pl)"
proof
  assume a: "walk h (Here it) (butlast (k # ks)) = Inr (h, pl)"
  from assms(2) have b: "butlast (k # ks) = k # butlast ks" by simp
  from a [unfolded b] assms(1) obtain h2 it2 where
    w: "writeProp (h @ [Plain []]) it k (VRef (length h)) = Inr h2"
    and k: "walk h2 it2 (butlast ks) = Inr (h, pl)"
    by (auto simp: newObject_def split: sum.splits)
  from walk_length [OF k] length_writeProp [OF w] show False by simp
qed

lemma walk_present: "present h it p \<Longrightarrow> \<exists>pl. walk h (Here it) p = Inr (h, pl)"
proof (induction p arbitrary: it)
  case Nil
  show ?case by simp
next
  case (Cons k ks)
  show ?case
  proof (cases "readChain h it k")
    case (Inl e)
    with Cons.prems show ?thesis by simp
  next
    case (Inr pl)
    show ?thesis
    proof (cases pl)
      case Builtin
      with Inr Cons.prems show ?thesis by simp
    next
      case (Here v)
      with Inr Cons.prems have "v \<noteq> VUndef" "present h v ks" by simp_all
      with Cons.IH [of v] Inr Here show ?thesis by simp
    qed
  qed
qed
section \<open>The claims\<close>

subsection \<open>C4: values of different type tags\<close>

text \<open>
  Claim C4 says that two values of different type tags always give exactly one \<open>Edited\<close>
  record at the root path. At the root there is no enclosing frame, so a falsy value
  counts as absent there: \<open>diff(0, "a")\<close> is one \<open>New\<close> record.
\<close>

theorem C4_counterexample:
  "realTypeOf [] (VNum (Num 0)) \<noteq> realTypeOf [] (VStr ''a'') \<and>
   VNum (Num 0) \<noteq> VStr ''a'' \<and>
   diff hash0 defaultOptions [] (VNum (Num 0)) (VStr ''a'') = [RawN [] (VStr ''a'')] \<and>
   diff hash0 defaultOptions [] (VNum (Num 0)) (VStr ''a'') \<noteq>
     [RawE [] (VNum (Num 0)) (VStr ''a'')]"
  by (simp add: diff_def deepDiff_simps bothRegexp_def realTypeOf_def)

text \<open>
  Claim C4, amended: for two values of different type tags, \<open>diff\<close> yields exactly one
  record, at the root path, carrying the raw values: an \<open>Edited\<close> record when both values
  are truthy or both are falsy, a \<open>New\<close> record when only the right one is truthy, a
  \<open>Deleted\<close> record when only the left one is.
\<close>

theorem C4_different_tags:
  "realTypeOf h v1 \<noteq> realTypeOf h v2 \<Longrightarrow>
   diff hash opt h v1 v2 =
     [if \<not> truthy v1 \<and> truthy v2 then RawN [] v2
      else if \<not> truthy v2 \<and> truthy v1 then RawD [] v1
      else RawE [] v1 v2]"
  by (simp add: diff_def deepDiff_simps bothRegexp_tags)

theorem C4_different_tags_witness:
  "realTypeOf [] (VNum (Num 1)) \<noteq> realTypeOf [] (VStr ''a'') \<and>
   diff hash0 defaultOptions [] (VNum (Num 1)) (VStr ''a'') =
     [RawE [] (VNum (Num 1)) (VStr ''a'')]"
  using C4_different_tags [of "[]" "VNum (Num 1)" "VStr ''a''" hash0 defaultOptions]
  by (simp add: realTypeOf_def)

subsection \<open>C5: reflexivity\<close>

text \<open>
  Claim C5 says that \<open>diff(v, v, defaultOptions)\<close> is empty for every value \<open>v\<close>. The
  test \<open>lhs - rhs !== 0\<close> on two dates holds when the time value is NaN, so an invalid date
  compared with itself gives an \<open>Edited\<close> record.
\<close>

theorem C5_invalid_date:
  "diff hash0 defaultOptions heap_C5 (VRef 0) (VRef 0) = [RawE [] (VRef 0) (VRef 0)]"
  by (simp add: diff_def deepDiff_simps defaultOptions_def heap_C5_def heap_defs lookup_def validRef_def)

subsection \<open>C6: a falsy value that is present\<close>

text \<open>
  Claim C6: \<open>diff({a: v}, {}, _)\<close> is exactly one \<open>Deleted\<close> record at path \<open>["a"]\<close> with
  the stored value \<open>v\<close>, whatever \<open>v\<close> is, \<open>0\<close> included: the left value is defined because
  \<open>a\<close> is an own property of the left member of the enclosing frame. The options are any
  whose prefilter does not suppress the key.
\<close>

theorem C6_presence:
  assumes "lookup h l = Some (Plain [(''a'', v)])"
    and "lookup h r = Some (Plain [])"
    and "\<not> prefiltered opt [] ''a''"
  shows "diff hash opt h (VRef l) (VRef r) = [RawD [''a''] v]"
  using assms
  by (simp add: diff_def deepDiff_simps validRef_lookup isArray_def keys_def getProp_def hasOwn_def
      realTypeOf_def bothRegexp_def defined_def onStack_def minusNonZero_def timeValue_def)

theorem C6_presence_witness:
  "lookup heap_C6 0 = Some (Plain [(''a'', VNum (Num 0))]) \<and>
   lookup heap_C6 1 = Some (Plain []) \<and>
   \<not> prefiltered defaultOptions [] ''a'' \<and>
   diff hash0 defaultOptions heap_C6 (VRef 0) (VRef 1) = [RawD [''a''] (VNum (Num 0))] \<and>
   diff hash0 defaultOptions heap_C6 (VRef 0) (VRef 1) \<noteq> []"
  using C6_presence [of heap_C6 0 "VNum (Num 0)" 1 defaultOptions hash0]
  by (simp add: heap_C6_def lookup_def prefiltered_def defaultOptions_def)

subsection \<open>C8: two cyclic objects of the same shape\<close>

text \<open>
  Claim C8 says that for \<open>a = {}; a.self = a; b = {}; b.self = b\<close>, \<open>diff(a, b, _)\<close>
  terminates and yields no record. It terminates, but on re-entry of \<open>a\<close> the code compares
  the two references, which differ, and pushes an \<open>Edited\<close> record.
\<close>

theorem C8_counterexample:
  "diff hash0 defaultOptions heap_C8 (VRef 0) (VRef 1) \<noteq> []"
  by (simp add: diff_def deepDiff_simps defaultOptions_def heap_C8_def heap_defs lookup_def validRef_def)

text \<open>
  Claim C8, amended: for two distinct self-referential objects \<open>a\<close> and \<open>b\<close> of that shape,
  \<open>diff(a, b, _)\<close> terminates (\<open>deepDiff\<close> is a total function) and yields exactly one
  \<open>Edited\<close> record, at path \<open>["self"]\<close>, carrying the two references: the cycle check stops
  the descent on re-entry of the left reference, which is not identical to the right one.
\<close>

theorem C8_cycle:
  assumes "lookup h a = Some (Plain [(''self'', VRef a)])"
    and "lookup h b = Some (Plain [(''self'', VRef b)])"
    and "a \<noteq> b"
    and "\<not> prefiltered opt [] ''self''"
  shows "diff hash opt h (VRef a) (VRef b) = [RawE [''self''] (VRef a) (VRef b)]"
  using assms
  by (simp add: diff_def deepDiff_simps validRef_lookup isArray_def keys_def getProp_def hasOwn_def
      realTypeOf_def bothRegexp_def defined_def onStack_def minusNonZero_def timeValue_def
      strictEq_def)

theorem C8_cycle_witness:
  "lookup heap_C8 0 = Some (Plain [(''self'', VRef 0)]) \<and>
   lookup heap_C8 1 = Some (Plain [(''self'', VRef 1)]) \<and> (0::nat) \<noteq> 1 \<and>
   \<not> prefiltered defaultOptions [] ''self'' \<and>
   diff hash0 defaultOptions heap_C8 (VRef 0) (VRef 1) = [RawE [''self''] (VRef 0) (VRef 1)]"
  using C8_cycle [of heap_C8 0 1 defaultOptions hash0]
  by (simp add: heap_C8_def lookup_def prefiltered_def defaultOptions_def)


subsection \<open>C7: array tail growth\<close>

text \<open>
  Claim C7: array comparison is positional. When the right array is longer, \<open>diff\<close> emits
  one \<open>ArrayChange\<close> record wrapping a \<open>New\<close> item for each extra tail index, in descending
  order of the index, and then recurses on the common prefix: it compares the elements at
  the index \<open>i\<close> of the two arrays, for \<open>i\<close> from the last index of the shorter array down
  to 0. With \<open>orderIndependent\<close> the arrays are the ones that the sort has left (by the
  external hash, \<open>undefined\<close> last), and each step of the prefix goes on in the heap that
  the step before has left; in the positional mode the arrays and the heap are the given
  ones. In particular \<open>diff([1, 2], [1, 2, 3, 4], _)\<close> is the two records for the indices
  3 and 2 and nothing else, for any prefilter, in the positional mode.
\<close>

theorem C7_tail_growth:
  "(lookup h l = Some (Arr xs) \<and> lookup h r = Some (Arr ys) \<and> length xs < length ys \<longrightarrow>
      (let h1 = sortBoth hash opt h (VRef l) (VRef r);
           xs1 = elems h1 (VRef l);
           ys1 = elems h1 (VRef r)
       in length xs1 = length xs \<and> length ys1 = length ys \<and>
          ys1 = (if orderIndependent opt
                 then sort_key (hash (sortArray hash h (VRef l))) (filter (\<lambda>x. x \<noteq> VUndef) ys) @
                      filter (\<lambda>x. x = VUndef) ys
                 else ys) \<and>
          diff hash opt h (VRef l) (VRef r) =
            map (\<lambda>i. RawA [] i (ItemN (ys1 ! i))) (rev [length xs..<length ys]) @
            snd (arrayLoop hash opt h1 (VRef l) (VRef r) (length xs) [] []
                   [Frame (VRef l) (VRef r)])) \<and>
      (\<not> orderIndependent opt \<longrightarrow>
         diff hash opt h (VRef l) (VRef r) =
           map (\<lambda>i. RawA [] i (ItemN (ys ! i))) (rev [length xs..<length ys]) @
           concat (map (\<lambda>i. snd (deepDiff hash opt h (xs ! i) (ys ! i) [] []
                                    (Some (showNat i)) [Frame (VRef l) (VRef r)]))
                     (rev [0..<length xs])))) \<and>
   snd (arrayLoop hash opt h lhs rhs 0 [] p st) = [] \<and>
   snd (arrayLoop hash opt h lhs rhs (Suc i) [] p st) =
     snd (deepDiff hash opt h (at (elems h lhs) i) (at (elems h rhs) i) [] p
            (Some (showNat i)) st) @
     snd (arrayLoop hash opt
            (fst (deepDiff hash opt h (at (elems h lhs) i) (at (elems h rhs) i) [] p
                    (Some (showNat i)) st))
            lhs rhs i [] p st) \<and>
   (\<not> orderIndependent opt \<longrightarrow>
      diff hash opt heap_C7 (VRef 0) (VRef 1) =
        [RawA [] 3 (ItemN (VNum (Num 4))), RawA [] 2 (ItemN (VNum (Num 3)))])"
proof (intro conjI impI)
  assume a: "lookup h l = Some (Arr xs) \<and> lookup h r = Some (Arr ys) \<and> length xs < length ys"
  then have lr: "l \<noteq> r" by auto
  have t: "let h1 = sortBoth hash opt h (VRef l) (VRef r);
           xs1 = elems h1 (VRef l);
           ys1 = elems h1 (VRef r)
       in length xs1 = length xs \<and> length ys1 = length ys \<and>
          diff hash opt h (VRef l) (VRef r) =
            map (\<lambda>i. RawA [] i (ItemN (ys1 ! i))) (rev [length xs..<length ys]) @
            snd (arrayLoop hash opt h1 (VRef l) (VRef r) (length xs) [] []
                   [Frame (VRef l) (VRef r)])"
    using a by (rule tail_growth)
  have s: "elems (sortBoth hash opt h (VRef l) (VRef r)) (VRef r) =
      (if orderIndependent opt
       then sort_key (hash (sortArray hash h (VRef l))) (filter (\<lambda>x. x \<noteq> VUndef) ys) @
            filter (\<lambda>x. x = VUndef) ys
       else ys)"
    using a lr by (auto simp: sortBoth_def sortArray_def elems_def lookup_def)
  show "let h1 = sortBoth hash opt h (VRef l) (VRef r);
           xs1 = elems h1 (VRef l);
           ys1 = elems h1 (VRef r)
       in length xs1 = length xs \<and> length ys1 = length ys \<and>
          ys1 = (if orderIndependent opt
                 then sort_key (hash (sortArray hash h (VRef l))) (filter (\<lambda>x. x \<noteq> VUndef) ys) @
                      filter (\<lambda>x. x = VUndef) ys
                 else ys) \<and>
          diff hash opt h (VRef l) (VRef r) =
            map (\<lambda>i. RawA [] i (ItemN (ys1 ! i))) (rev [length xs..<length ys]) @
            snd (arrayLoop hash opt h1 (VRef l) (VRef r) (length xs) [] []
                   [Frame (VRef l) (VRef r)])"
    using t s unfolding Let_def by simp
  assume o: "\<not> orderIndependent opt"
  have e: "elems h (VRef l) = xs" "elems h (VRef r) = ys"
    using a by (simp_all add: elems_def)
  have m: "map (\<lambda>i. snd (deepDiff hash opt h (at xs i) (at ys i) [] [] (Some (showNat i))
                       [Frame (VRef l) (VRef r)])) (rev [0..<length xs]) =
        map (\<lambda>i. snd (deepDiff hash opt h (xs ! i) (ys ! i) [] [] (Some (showNat i))
                       [Frame (VRef l) (VRef r)])) (rev [0..<length xs])"
    using a by (intro map_cong refl) (simp add: at_def)
  have "diff hash opt h (VRef l) (VRef r) =
      map (\<lambda>i. RawA [] i (ItemN (ys ! i))) (rev [length xs..<length ys]) @
      concat (map (\<lambda>i. snd (deepDiff hash opt h (at xs i) (at ys i) [] []
                               (Some (showNat i)) [Frame (VRef l) (VRef r)]))
                (rev [0..<length xs]))"
    using t o by (simp add: Let_def sortBoth_def arrayLoop_positional e)
  then show "diff hash opt h (VRef l) (VRef r) =
      map (\<lambda>i. RawA [] i (ItemN (ys ! i))) (rev [length xs..<length ys]) @
      concat (map (\<lambda>i. snd (deepDiff hash opt h (xs ! i) (ys ! i) [] []
                               (Some (showNat i)) [Frame (VRef l) (VRef r)]))
                (rev [0..<length xs]))"
    unfolding m .
next
  show "snd (arrayLoop hash opt h lhs rhs 0 [] p st) = []" by simp
next
  show "snd (arrayLoop hash opt h lhs rhs (Suc i) [] p st) =
     snd (deepDiff hash opt h (at (elems h lhs) i) (at (elems h rhs) i) [] p
            (Some (showNat i)) st) @
     snd (arrayLoop hash opt
            (fst (deepDiff hash opt h (at (elems h lhs) i) (at (elems h rhs) i) [] p
                    (Some (showNat i)) st))
            lhs rhs i [] p st)"
    by (simp add: arrayLoop_Suc)
next
  assume "\<not> orderIndependent opt"
  then show "diff hash opt heap_C7 (VRef 0) (VRef 1) =
        [RawA [] 3 (ItemN (VNum (Num 4))), RawA [] 2 (ItemN (VNum (Num 3)))]"
    using tail_growth [of heap_C7 0 "[VNum (Num 1), VNum (Num 2)]" 1
      "[VNum (Num 1), VNum (Num 2), VNum (Num 3), VNum (Num 4)]" hash opt]
    by (simp add: heap_C7_def lookup_def sortBoth_def elems_def Let_def
        eval_nat_numeral at_def deepDiff_same_number arrayLoop.simps)
qed

theorem C7_tail_growth_witness:
  "diff hash0 defaultOptions heap_C7 (VRef 0) (VRef 1) =
     [RawA [] 3 (ItemN (VNum (Num 4))), RawA [] 2 (ItemN (VNum (Num 3)))] \<and>
   diff hash0 defaultOptions heap_C7_prefix (VRef 0) (VRef 1) =
     [RawA [] 3 (ItemN (VNum (Num 4))), RawA [] 2 (ItemN (VNum (Num 3))),
      RawE [''1''] (VNum (Num 2)) (VNum (Num 9)), RawE [''0''] (VNum (Num 5)) (VNum (Num 1))] \<and>
   diff hash0 unordered heap_C7_sorted (VRef 0) (VRef 1) =
     [RawA [] 1 (ItemN VUndef), RawA [] 0 (ItemN (VNum (Num 5)))]"
proof -
  have n: "\<not> orderIndependent defaultOptions" by (simp add: defaultOptions_def)
  have one: "showNat (Suc 0) = ''1''" "showNat 0 = ''0''"
    by (simp_all add: showNat.simps digit_def)
  have lk: "lookup heap_C7_prefix 0 = Some (Arr [VNum (Num 5), VNum (Num 2)])"
    "lookup heap_C7_prefix 1 =
       Some (Arr [VNum (Num 1), VNum (Num 9), VNum (Num 3), VNum (Num 4)])"
    by (simp_all add: heap_C7_prefix_def lookup_def)
  have e: "snd (deepDiff hash0 defaultOptions heap_C7_prefix (VNum (Num 2)) (VNum (Num 9)) [] []
                 (Some ''1'') [Frame (VRef 0) (VRef 1)]) =
             [RawE [''1''] (VNum (Num 2)) (VNum (Num 9))]"
    "snd (deepDiff hash0 defaultOptions heap_C7_prefix (VNum (Num 5)) (VNum (Num 1)) [] []
            (Some ''0'') [Frame (VRef 0) (VRef 1)]) =
       [RawE [''0''] (VNum (Num 5)) (VNum (Num 1))]"
    by (simp_all add: deepDiff_eq compare_eq prefiltered_def defaultOptions_def bothRegexp_def
        realTypeOf_def defined_def strictEq_def isNaN_def)
  have a: "diff hash0 defaultOptions heap_C7 (VRef 0) (VRef 1) =
     [RawA [] 3 (ItemN (VNum (Num 4))), RawA [] 2 (ItemN (VNum (Num 3)))]"
    using C7_tail_growth [of heap_C7 0 "[VNum (Num 1), VNum (Num 2)]" 1
      "[VNum (Num 1), VNum (Num 2), VNum (Num 3), VNum (Num 4)]" hash0 defaultOptions] n
    by simp
  have b: "diff hash0 defaultOptions heap_C7_prefix (VRef 0) (VRef 1) =
     [RawA [] 3 (ItemN (VNum (Num 4))), RawA [] 2 (ItemN (VNum (Num 3))),
      RawE [''1''] (VNum (Num 2)) (VNum (Num 9)), RawE [''0''] (VNum (Num 5)) (VNum (Num 1))]"
    using C7_tail_growth [of heap_C7_prefix 0 "[VNum (Num 5), VNum (Num 2)]" 1
      "[VNum (Num 1), VNum (Num 9), VNum (Num 3), VNum (Num 4)]" hash0 defaultOptions] n lk e
    by (simp add: eval_nat_numeral one upt_rec)
  have c: "diff hash0 unordered heap_C7_sorted (VRef 0) (VRef 1) =
     [RawA [] 1 (ItemN VUndef), RawA [] 0 (ItemN (VNum (Num 5)))]"
    using C7_tail_growth [of heap_C7_sorted 0 "[]" 1 "[VUndef, VNum (Num 5)]" hash0 unordered]
    by (simp add: heap_C7_sorted_def lookup_def unordered_def hash0_def Let_def
        eval_nat_numeral upt_rec)
  from a b c show ?thesis by simp
qed

subsection \<open>C9: the observer\<close>

text \<open>
  Claim C9: \<open>observableDiff\<close> returns the full sequence of change records, the one
  \<open>deepDiff\<close> produces, whether or not an observer is given; a given observer is called
  once for each record, in emission order (the log of its calls is the sequence), on the
  sequence the finished traversal left. An observer that does not throw makes
  \<open>observableDiff\<close> return.
\<close>

theorem C9_observer:
  "(case deepDiff hash \<lparr>prefilter = pre, orderIndependent = ord\<rparr> h lhs rhs [] [] None [] of
      (h1, changes) \<Rightarrow>
        observableDiff hash h lhs rhs None pre ord s = Inr (h1, changes, s) \<and>
        (\<forall>r. observableDiff hash h lhs rhs (Some f) pre ord s = Inr r \<longrightarrow>
             fst r = h1 \<and> fst (snd r) = changes \<and>
             observableDiff hash h lhs rhs (Some (traced f)) pre ord (s, []) =
               Inr (h1, changes, (snd (snd r), changes))) \<and>
        ((\<forall>c s0. \<exists>s1. f c s0 = Inr s1) \<longrightarrow>
             (\<exists>s1. observableDiff hash h lhs rhs (Some f) pre ord s = Inr (h1, changes, s1))))"
proof -
  obtain h1 changes where
    d: "deepDiff hash \<lparr>prefilter = pre, orderIndependent = ord\<rparr> h lhs rhs [] [] None [] = (h1, changes)"
    by (cases "deepDiff hash \<lparr>prefilter = pre, orderIndependent = ord\<rparr> h lhs rhs [] [] None []")
  have t: "\<exists>s1. forEach f changes s = Inr s1" if "\<forall>c s0. \<exists>s1. f c s0 = Inr s1"
    using that forEach_total [of f changes s] by blast
  have 1: "observableDiff hash h lhs rhs None pre ord s = Inr (h1, changes, s)"
    by (simp add: observableDiff_def d)
  have 2: "fst r = h1 \<and> fst (snd r) = changes \<and>
      observableDiff hash h lhs rhs (Some (traced f)) pre ord (s, []) =
        Inr (h1, changes, (snd (snd r), changes))"
    if "observableDiff hash h lhs rhs (Some f) pre ord s = Inr r" for r
    using that by (auto simp: observableDiff_def d forEach_traced split: sum.splits)
  have 3: "\<exists>s1. observableDiff hash h lhs rhs (Some f) pre ord s = Inr (h1, changes, s1)"
    if "\<forall>c s0. \<exists>s1. f c s0 = Inr s1"
    using t [OF that] by (auto simp: observableDiff_def d)
  show ?thesis
    using 1 2 3 by (simp add: d)
qed

theorem C9_observer_witness:
  "observableDiff hash0 heap_C7 (VRef 0) (VRef 1) None None False ([] :: rawChange list) =
     Inr (heap_C7, [RawA [] 3 (ItemN (VNum (Num 4))), RawA [] 2 (ItemN (VNum (Num 3)))], []) \<and>
   observableDiff hash0 heap_C7 (VRef 0) (VRef 1) (Some arrayPush) None False [] =
     Inr (heap_C7, [RawA [] 3 (ItemN (VNum (Num 4))), RawA [] 2 (ItemN (VNum (Num 3)))],
          [RawA [] 3 (ItemN (VNum (Num 4))), RawA [] 2 (ItemN (VNum (Num 3)))]) \<and>
   observableDiff hash0 heap_C7 (VRef 0) (VRef 1) (Some (traced arrayPush)) None False ([], []) =
     Inr (heap_C7, [RawA [] 3 (ItemN (VNum (Num 4))), RawA [] 2 (ItemN (VNum (Num 3)))],
          ([RawA [] 3 (ItemN (VNum (Num 4))), RawA [] 2 (ItemN (VNum (Num 3)))],
           [RawA [] 3 (ItemN (VNum (Num 4))), RawA [] 2 (ItemN (VNum (Num 3)))]))"
proof -
  have d: "deepDiff hash0 \<lparr>prefilter = None, orderIndependent = False\<rparr> heap_C7 (VRef 0) (VRef 1)
      [] [] None [] =
    (heap_C7, [RawA [] 3 (ItemN (VNum (Num 4))), RawA [] 2 (ItemN (VNum (Num 3)))])"
    by (simp add: deepDiff_simps heap_C7_def heap_defs lookup_def validRef_def
        sortBoth_def tailChanges_def at_def eval_nat_numeral deepDiff_same_number)
  have o: "observableDiff hash0 heap_C7 (VRef 0) (VRef 1) (Some arrayPush) None False [] =
     Inr (heap_C7, [RawA [] 3 (ItemN (VNum (Num 4))), RawA [] 2 (ItemN (VNum (Num 3)))],
          [RawA [] 3 (ItemN (VNum (Num 4))), RawA [] 2 (ItemN (VNum (Num 3)))])"
    by (simp only: observableDiff_def d) (simp add: forEach_arrayPush)
  show ?thesis
    using C9_observer [where hash = hash0 and pre = None and ord = False and h = heap_C7
        and lhs = "VRef 0" and rhs = "VRef 1" and s = "[]" and f = arrayPush] d o
    by simp
qed

subsection \<open>C2: the sink of findDiff\<close>

text \<open>
  Claim C2 says that \<open>findDiff\<close> fails at once when the sink has no \<open>push\<close>. The check
  is inside the observer, which is called for the first record only after the traversal:
  when the two values do not differ, no error is raised and the sink is returned.
\<close>

theorem C2_counterexample:
  "findDiff hash0 [] (VNum (Num 1)) (VNum (Num 1)) False None noAccumPush =
     Inr ([], Sink noAccumPush) \<and>
   findDiff hash0 [] (VNum (Num 1)) (VNum (Num 1)) False None noAccumPush \<noteq> Inl AccumError"
  by (simp add: findDiff_def observableDiff_def noAccumPush_def deepDiff_same_number)

text \<open>
  Claim C2, amended: given a sink without \<open>push\<close>, \<open>findDiff\<close> fails with the error when
  the traversal emitted at least one record (the error is raised after the traversal, at the
  first record) and returns the sink when it emitted none; given a sink with \<open>push\<close>,
  every emitted record is pushed to it, in order, and the sink is returned (an array sink
  ends with the records appended); with no sink the sequence itself is returned.
\<close>

theorem C2_sink:
  "(case deepDiff hash \<lparr>prefilter = pre, orderIndependent = ord\<rparr> h lhs rhs [] [] None [] of
      (h1, changes) \<Rightarrow>
        findDiff hash h lhs rhs ord pre (Accum None s) =
          (if changes = [] then Inr (h1, Sink (Accum None s)) else Inl AccumError) \<and>
        findDiff hash h lhs rhs ord pre (Accum (Some push) s) =
          (case forEach push changes s of
             Inl e \<Rightarrow> Inl e
           | Inr s1 \<Rightarrow> Inr (h1, Sink (Accum (Some push) s1))) \<and>
        findDiff hash h lhs rhs ord pre (Accum (Some arrayPush) xs) =
          Inr (h1, Sink (Accum (Some arrayPush) (xs @ changes))) \<and>
        findDiff hash h lhs rhs ord pre (NoAccum :: unit accum) = Inr (h1, Changes changes))"
proof -
  have p: "accumObserver (Some g) = g" for g :: "rawChange \<Rightarrow> 't \<Rightarrow> error + 't"
    by (rule ext)+ (simp add: accumObserver_def)
  show ?thesis
    by (auto simp: findDiff_def observableDiff_def forEach_noPush forEach_arrayPush p
        split: prod.splits sum.splits)
qed

theorem C2_sink_witness:
  "findDiff hash0 heap_C6 (VRef 0) (VRef 1) False None noAccumPush = Inl AccumError \<and>
   findDiff hash0 heap_C6 (VRef 0) (VRef 1) False None (Accum (Some arrayPush) []) =
     Inr (heap_C6, Sink (Accum (Some arrayPush) [RawD [''a''] (VNum (Num 0))])) \<and>
   findDiff hash0 heap_C6 (VRef 0) (VRef 1) False None (NoAccum :: unit accum) =
     Inr (heap_C6, Changes [RawD [''a''] (VNum (Num 0))])"
proof -
  have d: "deepDiff hash0 \<lparr>prefilter = None, orderIndependent = False\<rparr> heap_C6 (VRef 0) (VRef 1)
      [] [] None [] = (heap_C6, [RawD [''a''] (VNum (Num 0))])"
    by (simp add: deepDiff_simps heap_C6_def heap_defs lookup_def validRef_def)
  show ?thesis
    using C2_sink [where hash = hash0 and pre = None and ord = False and h = heap_C6
        and lhs = "VRef 0" and rhs = "VRef 1" and s = "()" and push = "accumObserver None"
        and xs = "[]"] d
    by (simp add: noAccumPush_def)
qed

subsection \<open>C3: revertChange as a no-op\<close>

text \<open>
  Claim C3 says that \<open>revertChange\<close> leaves the target unchanged for every record of an
  unrecognised kind. The loop over the path runs before the \<open>switch\<close>, whatever the kind
  is, and makes an empty object at each segment that reads as \<open>undefined\<close>.
\<close>

theorem C3_counterexample:
  "revertChange noArrays [Plain []] (VRef 0) (Some change_C3) =
     Inr [Plain [(''a'', VRef 1)], Plain []] \<and>
   ckind change_C3 \<notin> {VStr ''N'', VStr ''D'', VStr ''E'', VStr ''A''} \<and>
   revertChange noArrays [Plain []] (VRef 0) (Some change_C3) \<noteq> Inr [Plain []]"
  by (simp add: revertChange_def change_C3_def readChain_def objectPrototype_def lookup_def
      newObject_def writeProp_def upsert_def lastKey_def)

text \<open>
  Claim C3, amended: \<open>revertChange\<close> is a no-op when the target is falsy (absent
  included), when the record is absent and when its kind is falsy (absent included). For a
  truthy kind that is none of \<open>'N'\<close>, \<open>'D'\<close>, \<open>'E'\<close>, \<open>'A'\<close> the last segment of the path
  is left alone and the outcome is that of the loop over the earlier segments. So it is a
  no-op when the path has at most one segment, and when every earlier segment is there
  (an own property that is not \<open>undefined\<close> or, for the last of them, a property that the
  prototype chain gives). It is not a no-op when the target is truthy and the first of at
  least two segments reads as \<open>undefined\<close>: an object is made there, or the call throws.
\<close>

theorem C3_no_op:
  "revertChange rac h target None = Inr h \<and>
   (\<not> truthy target \<or> \<not> truthy (ckind c) \<longrightarrow> revertChange rac h target (Some c) = Inr h) \<and>
   (ckind c \<notin> {VStr ''N'', VStr ''D'', VStr ''E'', VStr ''A''} \<longrightarrow>
      (length (cpath c) \<le> 1 \<longrightarrow> revertChange rac h target (Some c) = Inr h) \<and>
      (present h target (butlast (cpath c)) \<longrightarrow> revertChange rac h target (Some c) = Inr h) \<and>
      (truthy target \<and> truthy (ckind c) \<and> 2 \<le> length (cpath c) \<and>
       readChain h target (hd (cpath c)) = Inr (Here VUndef) \<longrightarrow>
         revertChange rac h target (Some c) \<noteq> Inr h) \<and>
      (truthy target \<and> truthy (ckind c) \<longrightarrow>
         revertChange rac h target (Some c) =
           (case walk h (Here target) (butlast (cpath c)) of
              Inl e \<Rightarrow> Inl e
            | Inr (h1, it) \<Rightarrow> Inr h1)))"
proof -
  have one: "butlast (cpath c) = []" if "length (cpath c) \<le> 1"
    using that by (cases "cpath c") auto
  have eq: "revertChange rac h target (Some c) =
      (case walk h (Here target) (butlast (cpath c)) of
         Inl e \<Rightarrow> Inl e
       | Inr (h1, it) \<Rightarrow> Inr h1)"
    if "ckind c \<notin> {VStr ''N'', VStr ''D'', VStr ''E'', VStr ''A''}"
      "truthy target \<and> truthy (ckind c)"
    using that by (auto simp: revertChange_def split: sum.splits prod.splits place.splits)
  have pres: "revertChange rac h target (Some c) = Inr h"
    if k: "ckind c \<notin> {VStr ''N'', VStr ''D'', VStr ''E'', VStr ''A''}"
      and p: "present h target (butlast (cpath c))"
  proof (cases "truthy target \<and> truthy (ckind c)")
    case False
    then show ?thesis by (auto simp: revertChange_def)
  next
    case True
    from walk_present [OF p] obtain pl where
      "walk h (Here target) (butlast (cpath c)) = Inr (h, pl)" by blast
    with eq [OF k True] show ?thesis by simp
  qed
  have made: "revertChange rac h target (Some c) \<noteq> Inr h"
    if k: "ckind c \<notin> {VStr ''N'', VStr ''D'', VStr ''E'', VStr ''A''}"
      and t: "truthy target \<and> truthy (ckind c)"
      and l: "2 \<le> length (cpath c)"
      and r: "readChain h target (hd (cpath c)) = Inr (Here VUndef)"
  proof -
    from l have c: "cpath c = hd (cpath c) # tl (cpath c)" "tl (cpath c) \<noteq> []"
      by (cases "cpath c"; auto)+
    from walk_created [OF r c(2)] c(1)
    have "walk h (Here target) (butlast (cpath c)) \<noteq> Inr (h, pl)" for pl by simp
    then show ?thesis
      unfolding eq [OF k t] by (auto split: sum.splits)
  qed
  have none: "revertChange rac h target None = Inr h"
    and falsy: "\<not> truthy target \<or> \<not> truthy (ckind c) \<Longrightarrow>
      revertChange rac h target (Some c) = Inr h"
    by (auto simp: revertChange_def)
  have short: "revertChange rac h target (Some c) = Inr h"
    if "ckind c \<notin> {VStr ''N'', VStr ''D'', VStr ''E'', VStr ''A''}" "length (cpath c) \<le> 1"
    using that one by (auto simp: revertChange_def)
  show ?thesis
    using none falsy short pres made eq by blast
qed

theorem C3_no_op_witness:
  "revertChange noArrays [Plain []] (VRef 0) None = Inr [Plain []] \<and>
   revertChange noArrays [Plain []] VNull (Some change_C3) = Inr [Plain []] \<and>
   revertChange noArrays [Plain []] (VRef 0) (Some (change_C3\<lparr>cpath := [''a'']\<rparr>)) = Inr [Plain []] \<and>
   present [Plain []] (VRef 0) [''constructor''] \<and>
   revertChange noArrays [Plain []] (VRef 0)
     (Some (change_C3\<lparr>cpath := [''constructor'', ''b'']\<rparr>)) = Inr [Plain []] \<and>
   readChain [Plain []] (VRef 0) ''a'' = Inr (Here VUndef) \<and>
   revertChange noArrays [Plain []] (VRef 0) (Some change_C3) \<noteq> Inr [Plain []] \<and>
   revertChange noArrays [Plain []] (VRef 0) (Some change_C3) =
     Inr [Plain [(''a'', VRef 1)], Plain []]"
proof -
  have p: "present [Plain []] (VRef 0) [''constructor'']"
    and r: "readChain [Plain []] (VRef 0) ''a'' = Inr (Here VUndef)"
    by (simp_all add: readChain_def objectPrototype_def lookup_def)
  show ?thesis
    using C3_no_op [of noArrays "[Plain []]" "VRef 0" change_C3]
      C3_no_op [of noArrays "[Plain []]" VNull change_C3]
      C3_no_op [of noArrays "[Plain []]" "VRef 0" "change_C3\<lparr>cpath := [''a'']\<rparr>"]
      C3_no_op [of noArrays "[Plain []]" "VRef 0"
        "change_C3\<lparr>cpath := [''constructor'', ''b'']\<rparr>"] p r
    by (simp add: change_C3_def readChain_def objectPrototype_def lookup_def
        newObject_def writeProp_def upsert_def)
qed

subsection \<open>C10: the empty string as a key\<close>

text \<open>
  Claim C10: the loop over the keys of the right object skips the keys that are not
  truthy, the empty string among them, so it runs as on the list without them. For two
  plain objects compared at the root, where the left one has no key \<open>""\<close>, every record
  has a path that starts with a non-empty own key of one of the two: there is no record
  for the key \<open>""\<close> of the right object, which would carry the root path. A comparison
  under the key \<open>""\<close> goes straight to the chain of tests, without asking the prefilter and
  with the path of its parent, which is a prefix of the path of every record it emits.
\<close>

theorem C10_empty_key:
  "rhsKeysLoop hash opt h rhs rks ch path stack =
     rhsKeysLoop hash opt h rhs (filter keyTruthy rks) ch path stack \<and>
   (lookup h l = Some (Plain ps) \<and> lookup h r = Some (Plain qs) \<and> [] \<notin> fst ` set ps \<longrightarrow>
      (\<forall>c \<in> set (diff hash opt h (VRef l) (VRef r)).
         \<exists>k q. rawPath c = k # q \<and> k \<noteq> [] \<and> k \<in> fst ` set ps \<union> fst ` set qs)) \<and>
   deepDiff hash opt h lhs rhs ch path (Some []) stack =
     compare hash opt h (stringIf (bothRegexp h lhs rhs) h lhs)
       (stringIf (bothRegexp h lhs rhs) h rhs) ch path (Some []) stack \<and>
   (\<forall>c \<in> set (snd (deepDiff hash opt h lhs rhs [] path (Some []) stack)).
      prefix path (rawPath c))"
  using rhsKeysLoop_filter [of hash opt h rhs rks ch path stack]
    plain_root_paths [of h l ps r qs _ hash opt]
    paths_extend(1) [of hash opt h lhs rhs path "Some []" stack]
  by (simp add: deepDiff.simps)

theorem C10_empty_key_witness:
  "lookup heap_C10 0 = Some (Plain [(''a'', VNum (Num 1))]) \<and>
   lookup heap_C10 1 = Some (Plain [('''', VNum (Num 5)), (''a'', VNum (Num 2))]) \<and>
   diff hash0 defaultOptions heap_C10 (VRef 0) (VRef 1)
     = [RawE [''a''] (VNum (Num 1)) (VNum (Num 2))] \<and>
   rawPath (RawE [''a''] (VNum (Num 1)) (VNum (Num 2))) = [''a''] \<and>
   diff hash0 \<lparr>prefilter = Some rejectAll, orderIndependent = False\<rparr> heap_C10 (VRef 2) (VRef 3)
     = [RawE [] (VNum (Num 1)) (VNum (Num 2))]"
  using C10_empty_key [where hash = hash0 and opt = defaultOptions and h = heap_C10 and l = 0
      and r = 1 and ps = "[(''a'', VNum (Num 1))]"
      and qs = "[('''', VNum (Num 5)), (''a'', VNum (Num 2))]"]
  by (simp add: heap_C10_def lookup_def diff_def deepDiff_simps defaultOptions_def heap_defs
      validRef_def rejectAll_def insert_commute)
subsection \<open>What deepDiff emits for two plain objects\<close>

lemma indexOf_None: "indexOf x xs = None \<longleftrightarrow> x \<notin> set xs"
  by (induction xs) auto

lemma indexOf_Some: "indexOf x xs = Some i \<Longrightarrow> x \<in> set xs"
  using indexOf_None [of x xs] by auto

lemma indexOf_update:
  "distinct (filter (\<lambda>x. x \<noteq> None) rks) \<Longrightarrow> indexOf (Some k) rks = Some i \<Longrightarrow>
   rks[i := None] = map (\<lambda>x. if x = Some k then None else x) rks"
proof (induction rks arbitrary: i)
  case Nil
  then show ?case by simp
next
  case (Cons x rks)
  show ?case
  proof (cases "x = Some k")
    case True
    with Cons.prems have "Some k \<notin> set rks" by auto
    then have "map (\<lambda>x. if x = Some k then None else x) rks = rks"
      by (induction rks) auto
    with True Cons.prems show ?thesis by simp
  next
    case False
    with Cons.prems obtain j where j: "indexOf (Some k) rks = Some j" "i = Suc j"
      by (auto split: if_splits)
    from Cons.prems have "distinct (filter (\<lambda>x. x \<noteq> None) rks)"
      by (auto split: if_splits)
    from Cons.IH [OF this j(1)] False j(2) show ?thesis by simp
  qed
qed

lemma lhsKeysLoop_plain:
  assumes "\<And>k w q key s. k \<in> set ks \<Longrightarrow>
      fst (deepDiff hash opt h (getProp h lhs k) w [] q key s) = h"
    and "distinct ks"
    and "distinct (filter (\<lambda>x. x \<noteq> None) rks)"
  shows "lhsKeysLoop hash opt h lhs rhs ks rks [] p st =
     (h,
      concat (map (\<lambda>k. snd (deepDiff hash opt h (getProp h lhs k)
                 (if Some k \<in> set rks then getProp h rhs k else VNull) [] p (Some k) st)) ks),
      map (\<lambda>x. if x \<in> Some ` set ks then None else x) rks)"
  using assms
proof (induction ks arbitrary: rks)
  case Nil
  then show ?case by (simp add: map_idI)
next
  case (Cons k ks)
  let ?rks = "case indexOf (Some k) rks of None \<Rightarrow> rks | Some other \<Rightarrow> rks[other := None]"
  have r: "?rks = map (\<lambda>x. if x = Some k then None else x) rks"
  proof (cases "indexOf (Some k) rks")
    case None
    then have "Some k \<notin> set rks" by (simp add: indexOf_None)
    then have "map (\<lambda>x. if x = Some k then None else x) rks = rks"
      by (induction rks) auto
    with None show ?thesis by simp
  next
    case (Some i)
    then show ?thesis using indexOf_update [OF Cons.prems(3) Some] by simp
  qed
  have d: "distinct (filter (\<lambda>x. x \<noteq> None) ?rks)"
    unfolding r using Cons.prems(3)
    by (induction rks) (auto split: if_splits)
  have m: "(Some j \<in> set ?rks) = (Some j \<in> set rks)" if "j \<in> set ks" for j
    using that Cons.prems(2) unfolding r by auto
  have v: "(case indexOf (Some k) rks of None \<Rightarrow> VNull | Some other \<Rightarrow> getProp h rhs k) =
      (if Some k \<in> set rks then getProp h rhs k else VNull)"
  proof (cases "indexOf (Some k) rks")
    case None
    then have "Some k \<notin> set rks" by (simp add: indexOf_None)
    with None show ?thesis by simp
  next
    case (Some i)
    then have "Some k \<in> set rks" by (rule indexOf_Some)
    with Some show ?thesis by simp
  qed
  have "map (\<lambda>x. if x \<in> Some ` set ks then None else x) ?rks =
      map (\<lambda>x. if x \<in> Some ` set (k # ks) then None else x) rks"
    unfolding r by (induction rks) auto
  moreover have "concat (map (\<lambda>j. snd (deepDiff hash opt h (getProp h lhs j)
                 (if Some j \<in> set ?rks then getProp h rhs j else VNull) [] p (Some j) st)) ks) =
      concat (map (\<lambda>j. snd (deepDiff hash opt h (getProp h lhs j)
                 (if Some j \<in> set rks then getProp h rhs j else VNull) [] p (Some j) st)) ks)"
    using m by (intro arg_cong [where f = concat] map_cong) auto
  moreover have "lhsKeysLoop hash opt h lhs rhs ks ?rks [] p st =
     (h,
      concat (map (\<lambda>k. snd (deepDiff hash opt h (getProp h lhs k)
                 (if Some k \<in> set ?rks then getProp h rhs k else VNull) [] p (Some k) st)) ks),
      map (\<lambda>x. if x \<in> Some ` set ks then None else x) ?rks)"
  proof (rule Cons.IH)
    show "distinct ks" using Cons.prems(2) by simp
    show "distinct (filter (\<lambda>x. x \<noteq> None) ?rks)" by (rule d)
  next
    fix j w q key s assume "j \<in> set ks"
    then show "fst (deepDiff hash opt h (getProp h lhs j) w [] q key s) = h"
      using Cons.prems(1) [of j w q key s] by simp
  qed
  moreover have "fst (deepDiff hash opt h (getProp h lhs k) w [] q key s) = h" for w q key s
    using Cons.prems(1) [of k w q key s] by simp
  ultimately show ?case
    by (simp add: lhsKeysLoop_Cons Let_def v del: indexOf.simps)
qed

lemma deepDiff_null_heap: "fst (deepDiff hash opt h VNull w [] p key st) = h"
  by (simp add: deepDiff_eq compare_eq bothRegexp_def realTypeOf_def)


lemma rhsKeysLoop_plain:
  "rhsKeysLoop hash opt h rhs rks [] p st =
     (h, concat (map (\<lambda>x. snd (deepDiff hash opt h VNull (getProp h rhs (keyString x)) [] p x st))
                  (filter keyTruthy rks)))"
  by (induction rks) (simp_all add: rhsKeysLoop_Cons Let_def deepDiff_null_heap)

lemma deepDiff_left_only:
  assumes "k \<noteq> []" "\<not> prefiltered opt p k" "hasOwn h L k" "truthy L" "\<not> hasOwn h R k"
  shows "deepDiff hash opt h v VNull [] p (Some k) (st @ [Frame L R]) = (h, [RawD (p @ [k]) v])"
  using assms
  by (simp add: deepDiff_eq compare_eq bothRegexp_def realTypeOf_def defined_def)

lemma deepDiff_right_only:
  assumes "k \<noteq> []" "\<not> prefiltered opt p k" "hasOwn h R k" "truthy R" "\<not> hasOwn h L k"
  shows "deepDiff hash opt h VNull w [] p (Some k) (st @ [Frame L R]) = (h, [RawN (p @ [k]) w])"
  using assms
  by (simp add: deepDiff_eq compare_eq bothRegexp_def realTypeOf_def defined_def)

lemma acyclicPlain_plainValue: "acyclicPlain n h v \<Longrightarrow> plainValue h v"
  by (cases n; cases v) (auto simp: plainValue_def split: option.splits obj.splits)

lemma deepDiff_both:
  assumes "k \<noteq> []" "\<not> prefiltered opt p k" "hasOwn h L k" "truthy L" "hasOwn h R k" "truthy R"
    and "plainValue h v" "plainValue h w"
  shows "snd (deepDiff hash opt h v w [] p (Some k) (st @ [Frame L R])) =
     (case (v, w) of
        (VRef a, VRef b) \<Rightarrow>
          if onStack (st @ [Frame L R]) v then (if a = b then [] else [RawE (p @ [k]) v w])
          else snd (descend hash opt h v w [] (p @ [k]) (st @ [Frame L R, Frame v w]))
      | _ \<Rightarrow> if v = w then [] else [RawE (p @ [k]) v w])"
proof -
  have nr: "\<not> bothRegexp h v w"
    using assms(7)
    by (cases v) (auto simp: bothRegexp_def realTypeOf_def plainValue_def split: number.splits)
  have df: "defined h v (map frame_lhs (st @ [Frame L R])) (Some k)"
    "defined h w (map frame_rhs (st @ [Frame L R])) (Some k)"
    using assms by (simp_all add: defined_def)
  show ?thesis
  proof (cases "\<exists>a b. v = VRef a \<and> w = VRef b")
    case True
    then obtain a b where ab: "v = VRef a" "w = VRef b" by blast
    with assms(7,8) obtain ps qs where
      l: "lookup h a = Some (Plain ps)" "lookup h b = Some (Plain qs)"
      by (auto simp: plainValue_def)
    show ?thesis
      using assms(1,2) nr df ab l
      by (simp add: deepDiff_eq compare_eq realTypeOf_def validRef_lookup strictEq_def)
  next
    case False
    have "snd (deepDiff hash opt h v w [] p (Some k) (st @ [Frame L R])) =
        (if v = w then [] else [RawE (p @ [k]) v w])"
      using assms(1,2,7,8) nr df False
      by (cases v; cases w)
        (auto simp: deepDiff_eq compare_eq realTypeOf_def strictEq_def isNaN_def plainValue_def
          timeValue_def minusNonZero_def
          split: number.splits option.splits obj.splits)
    with False show ?thesis by (cases v; cases w) auto
  qed
qed

subsection \<open>Heaps that agree on the objects of a value\<close>

lemma lookup_update: "lookup (h[a := ob]) b = (if b = a \<and> a < length h then Some ob else lookup h b)"
  by (auto simp: lookup_def)

lemma getProp_cong: "lookup H1 a = lookup H a \<Longrightarrow> getProp H1 (VRef a) k = getProp H (VRef a) k"
  by (simp add: getProp_def)

lemma keys_cong: "lookup H1 a = lookup H a \<Longrightarrow> keys H1 (VRef a) = keys H (VRef a)"
  by (simp add: keys_def)

lemma acyclicPlain_ref:
  "acyclicPlain n h (VRef a) =
     (\<exists>m ps. n = Suc m \<and> lookup h a = Some (Plain ps) \<and> distinct (map fst ps) \<and>
        [] \<notin> set (map fst ps) \<and> ''__proto__'' \<notin> set (map fst ps) \<and>
        (\<forall>k \<in> set (map fst ps). acyclicPlain m h (getProp h (VRef a) k)))"
proof (cases n)
  case 0
  then show ?thesis by simp
next
  case (Suc m)
  show ?thesis
  proof (cases "lookup h a")
    case None
    with Suc show ?thesis by simp
  next
    case (Some ob)
    with Suc show ?thesis by (cases ob) auto
  qed
qed

lemma sameValue_ref:
  "sameValue n H (VRef a) h w =
     (\<exists>m b ps qs. n = Suc m \<and> w = VRef b \<and> lookup H a = Some (Plain ps) \<and>
        lookup h b = Some (Plain qs) \<and> distinct (map fst ps) \<and>
        set (map fst ps) = set (map fst qs) \<and>
        (\<forall>k \<in> set (map fst qs). sameValue m H (getProp H (VRef a) k) h (getProp h w k)))"
proof (cases n)
  case 0
  then show ?thesis by simp
next
  case (Suc m)
  show ?thesis
  proof (cases "\<exists>b. w = VRef b")
    case False
    with Suc show ?thesis by (cases w) auto
  next
    case True
    then obtain b where b: "w = VRef b" by blast
    show ?thesis
    proof (cases "lookup H a")
      case None
      with Suc b show ?thesis by simp
    next
      case (Some ob)
      note oa = this
      show ?thesis
      proof (cases "lookup h b")
        case None
        with Suc b oa show ?thesis by (cases ob) auto
      next
        case (Some ob2)
        with Suc b oa show ?thesis by (cases ob; cases ob2) auto
      qed
    qed
  qed
qed

lemma sameValue_prim: "\<not> (\<exists>a. v = VRef a) \<Longrightarrow> sameValue n H v h w = (v = w)"
  by (cases n; cases v) auto

lemma region_ref:
  "region (Suc m) H (VRef a) =
     a # concat (map (\<lambda>k. region m H (getProp H (VRef a) k)) (keys H (VRef a)))"
  by simp

lemma region_prim: "\<not> (\<exists>a. v = VRef a) \<Longrightarrow> region n H v = []"
  by (cases n; cases v) auto

lemma keys_plain: "lookup H a = Some (Plain ps) \<Longrightarrow> keys H (VRef a) = map fst ps"
  by (simp add: keys_def)

lemma region_cong:
  "(\<And>a. a \<in> set (region n H v) \<Longrightarrow> lookup H1 a = lookup H a) \<Longrightarrow> region n H1 v = region n H v"
proof (induction n arbitrary: v)
  case 0
  then show ?case by simp
next
  case (Suc n)
  show ?case
  proof (cases v)
    case (VRef a)
    have "a \<in> set (region (Suc n) H v)" using VRef by simp
    then have a: "lookup H1 a = lookup H a" by (rule Suc.prems)
    have "region n H1 (getProp H (VRef a) k) = region n H (getProp H (VRef a) k)"
      if "k \<in> set (keys H (VRef a))" for k
    proof (rule Suc.IH)
      fix b assume "b \<in> set (region n H (getProp H (VRef a) k))"
      with that have "b \<in> set (region (Suc n) H v)" unfolding VRef region_ref by auto
      then show "lookup H1 b = lookup H b" by (rule Suc.prems)
    qed
    then have m: "map (\<lambda>k. region n H1 (getProp H (VRef a) k)) (keys H (VRef a)) =
        map (\<lambda>k. region n H (getProp H (VRef a) k)) (keys H (VRef a))"
      by simp
    show ?thesis
      unfolding VRef region_ref getProp_cong [OF a] keys_cong [OF a] m by (rule refl)
  qed simp_all
qed

lemma sameValue_cong:
  "(\<And>a. a \<in> set (region n H v) \<Longrightarrow> lookup H1 a = lookup H a) \<Longrightarrow>
   sameValue n H1 v h w = sameValue n H v h w"
proof (induction n arbitrary: v w)
  case 0
  then show ?case by simp
next
  case (Suc n)
  show ?case
  proof (cases v)
    case (VRef a)
    from Suc.prems VRef have a: "lookup H1 a = lookup H a" by simp
    have g: "getProp H1 (VRef a) k = getProp H (VRef a) k" for k
      using a by (rule getProp_cong)
    have c: "sameValue n H1 (getProp H (VRef a) k) h x = sameValue n H (getProp H (VRef a) k) h x"
      if "lookup H a = Some (Plain ps)" "k \<in> set (map fst ps)" for k x ps
    proof (rule Suc.IH)
      fix b assume "b \<in> set (region n H (getProp H (VRef a) k))"
      with that VRef have "b \<in> set (region (Suc n) H v)"
        by (auto simp: keys_plain)
      then show "lookup H1 b = lookup H b" by (rule Suc.prems)
    qed
    show ?thesis
    proof (cases "\<exists>ps b qs. lookup H a = Some (Plain ps) \<and> w = VRef b \<and>
        lookup h b = Some (Plain qs) \<and> set (map fst ps) = set (map fst qs)")
      case False
      then show ?thesis
        unfolding VRef sameValue_ref [of "Suc n"] a by blast
    next
      case True
      then obtain ps b qs where
        p: "lookup H a = Some (Plain ps)" "w = VRef b" "lookup h b = Some (Plain qs)"
        "set (map fst ps) = set (map fst qs)"
        by blast
      have "(\<forall>k \<in> set (map fst qs). sameValue n H1 (getProp H (VRef a) k) h (getProp h w k)) =
          (\<forall>k \<in> set (map fst qs). sameValue n H (getProp H (VRef a) k) h (getProp h w k))"
        using c [OF p(1)] p(4) by (intro ball_cong refl) simp
      then show ?thesis
        unfolding VRef sameValue_ref [of "Suc n"] a g using p by simp
    qed
  qed simp_all
qed

lemma acyclicPlain_Suc: "acyclicPlain n h v \<Longrightarrow> acyclicPlain (Suc n) h v"
proof (induction n arbitrary: v)
  case 0
  then show ?case by (cases v) auto
next
  case (Suc n)
  show ?case
  proof (cases v)
    case (VRef a)
    with Suc.prems show ?thesis
      unfolding VRef acyclicPlain_ref [of "Suc n"] acyclicPlain_ref [of "Suc (Suc n)"]
      using Suc.IH by auto
  qed simp_all
qed

lemma sameValue_self:
  "acyclicPlain n h v \<Longrightarrow> (\<And>a. a \<in> set (region n h v) \<Longrightarrow> lookup H a = lookup h a) \<Longrightarrow>
   sameValue n H v h v"
proof (induction n arbitrary: v)
  case 0
  then show ?case by (cases v) auto
next
  case (Suc n)
  show ?case
  proof (cases v)
    case (VRef a)
    from Suc.prems(1) [unfolded VRef acyclicPlain_ref] obtain ps where
      ps: "lookup h a = Some (Plain ps)" "distinct (map fst ps)"
      "\<And>k. k \<in> set (map fst ps) \<Longrightarrow> acyclicPlain n h (getProp h (VRef a) k)"
      by auto
    from Suc.prems(2) VRef have a: "lookup H a = lookup h a" by simp
    have g: "getProp H (VRef a) k = getProp h (VRef a) k" for k
      using a by (rule getProp_cong)
    have "sameValue n H (getProp h (VRef a) k) h (getProp h (VRef a) k)"
      if "k \<in> set (map fst ps)" for k
    proof (rule Suc.IH [OF ps(3) [OF that]])
      fix b assume "b \<in> set (region n h (getProp h (VRef a) k))"
      with that VRef ps(1) have "b \<in> set (region (Suc n) h v)" by (auto simp: keys_plain)
      then show "lookup H b = lookup h b" by (rule Suc.prems(2))
    qed
    then show ?thesis
      unfolding VRef sameValue_ref [of "Suc n"] g using a ps(1,2) by auto
  qed simp_all
qed

subsection \<open>The walk of revertChange\<close>

lemma find_indexKeys:
  "find (\<lambda>i. showNat i = k) [0..<n] = Some i \<Longrightarrow> k \<in> set (indexKeys n)"
  by (auto simp: find_Some_iff indexKeys_def)

lemma readChain_own:
  assumes "getProp H v k \<noteq> VUndef"
  shows "readChain H v k = Inr (Here (getProp H v k))"
proof (cases v)
  case (VRef a)
  show ?thesis
  proof (cases "lookup H a")
    case None
    with assms VRef show ?thesis by (simp add: getProp_def)
  next
    case (Some ob)
    show ?thesis
    proof (cases ob)
      case (Plain ps)
      with assms VRef Some show ?thesis
        by (simp add: getProp_def readChain_def split: option.splits)
    next
      case (Arr xs)
      with assms VRef Some have "k \<in> set (indexKeys (length xs)) \<or> k = ''length''"
        by (auto simp: getProp_def dest: find_indexKeys split: option.splits if_splits)
      with VRef Some Arr show ?thesis by (simp add: readChain_def)
    next
      case (Date t)
      with assms VRef Some show ?thesis by (simp add: getProp_def)
    next
      case (RegExp r)
      with assms VRef Some show ?thesis by (simp add: getProp_def)
    qed
  qed
next
  case (VStr s)
  with assms have "k \<in> set (indexKeys (length s)) \<or> k = ''length''"
    by (auto simp: getProp_def dest: find_indexKeys split: option.splits if_splits)
  with VStr show ?thesis by (simp add: readChain_def)
qed (use assms in \<open>simp_all add: getProp_def\<close>)

lemma walk_reach: "reach H v p = Some it \<Longrightarrow> walk H (Here v) p = Inr (H, Here it)"
  by (induction p arbitrary: v) (auto simp: readChain_own split: if_splits)

lemma reach_snoc:
  "reach H v (p @ [k]) =
     (case reach H v p of
        None \<Rightarrow> None
      | Some it \<Rightarrow> if it = VUndef \<or> it = VNull \<or> getProp H it k = VUndef then None
                   else Some (getProp H it k))"
  by (induction p arbitrary: v) auto

lemma pathObjs_snoc:
  "reach H v p = Some it \<Longrightarrow>
   pathObjs H v (p @ [k]) = pathObjs H v p @ (case it of VRef a \<Rightarrow> [a] | _ \<Rightarrow> [])"
  by (induction p arbitrary: v) (auto split: if_splits)

lemma getProp_path_cong:
  assumes "\<And>a. a \<in> set (pathObjs H v (k # p)) \<Longrightarrow> lookup H1 a = lookup H a"
  shows "getProp H1 v k = getProp H v k"
proof (cases v)
  case (VRef a)
  then have "a \<in> set (pathObjs H v (k # p))" by simp
  then have "lookup H1 a = lookup H a" by (rule assms)
  then show ?thesis unfolding VRef by (rule getProp_cong)
qed (simp_all add: getProp_def)

lemma reach_cong:
  "(\<And>a. a \<in> set (pathObjs H v p) \<Longrightarrow> lookup H1 a = lookup H a) \<Longrightarrow> reach H1 v p = reach H v p"
proof (induction p arbitrary: v)
  case Nil
  then show ?case by simp
next
  case (Cons k p)
  have g: "getProp H1 v k = getProp H v k"
    using Cons.prems by (rule getProp_path_cong)
  have "reach H1 (getProp H v k) p = reach H (getProp H v k) p"
  proof (rule Cons.IH)
    fix a assume "a \<in> set (pathObjs H (getProp H v k) p)"
    then have "a \<in> set (pathObjs H v (k # p))" by simp
    then show "lookup H1 a = lookup H a" by (rule Cons.prems)
  qed
  with g show ?case by simp
qed

lemma pathObjs_cong:
  "(\<And>a. a \<in> set (pathObjs H v p) \<Longrightarrow> lookup H1 a = lookup H a) \<Longrightarrow>
   pathObjs H1 v p = pathObjs H v p"
proof (induction p arbitrary: v)
  case Nil
  then show ?case by simp
next
  case (Cons k p)
  have g: "getProp H1 v k = getProp H v k"
    using Cons.prems by (rule getProp_path_cong)
  have "pathObjs H1 (getProp H v k) p = pathObjs H (getProp H v k) p"
  proof (rule Cons.IH)
    fix a assume "a \<in> set (pathObjs H (getProp H v k) p)"
    then have "a \<in> set (pathObjs H v (k # p))" by simp
    then show "lookup H1 a = lookup H a" by (rule Cons.prems)
  qed
  with g show ?case by simp
qed

lemma revertAll_append:
  "revertAll rac h t (xs @ ys) =
     (case revertAll rac h t xs of Inl e \<Rightarrow> Inl e | Inr h1 \<Rightarrow> revertAll rac h1 t ys)"
  by (induction xs arbitrary: h) (auto split: sum.splits)

lemma revert_set:
  assumes "reach H troot p = Some (VRef ta)" "lookup H ta = Some (Plain tps)" "truthy troot"
  shows "k \<noteq> ''__proto__'' \<Longrightarrow>
         revertChange rac H troot (Some (toChange (RawE (p @ [k]) v w))) =
           Inr (H[ta := Plain (upsert k v tps)])"
    and "k \<noteq> ''__proto__'' \<Longrightarrow>
         revertChange rac H troot (Some (toChange (RawD (p @ [k]) v))) =
           Inr (H[ta := Plain (upsert k v tps)])"
    and "revertChange rac H troot (Some (toChange (RawN (p @ [k]) w))) =
           Inr (H[ta := Plain (filter (\<lambda>(k1, x). k1 \<noteq> k) tps)])"
  using assms walk_reach [OF assms(1)]
  by (simp_all add: revertChange_def lastKey_def writeProp_def deleteProp_def)

lemma map_of_replaceKey:
  "map_of (replaceKey k v ps) j =
     (if j = k \<and> k \<in> set (map fst ps) then Some v else map_of ps j)"
  by (induction k v ps rule: replaceKey.induct) force+

lemma map_of_insertKey:
  "k \<notin> set (map fst ps) \<Longrightarrow>
   map_of (insertKey k v ps) j = (if j = k then Some v else map_of ps j)"
proof (induction ps)
  case Nil
  show ?case by simp
next
  case (Cons x ps)
  obtain k1 w where x: "x = (k1, w)" by (cases x)
  from Cons.prems x have n: "k \<notin> set (map fst ps)" "k \<noteq> k1" by auto
  from Cons.IH [OF n(1)] x n(2) show ?case by auto
qed

lemma map_of_upsert: "map_of (upsert k v ps) j = (if j = k then Some v else map_of ps j)"
  by (simp add: upsert_def map_of_replaceKey map_of_insertKey)

lemma keys_replaceKey: "map fst (replaceKey k v ps) = map fst ps"
  by (induction k v ps rule: replaceKey.induct) auto

lemma keys_insertKey: "set (map fst (insertKey k v ps)) = insert k (set (map fst ps))"
  by (induction k v ps rule: insertKey.induct) auto

lemma keys_upsert: "set (map fst (upsert k v ps)) = insert k (set (map fst ps))"
proof (cases "k \<in> set (map fst ps)")
  case True
  then have "upsert k v ps = replaceKey k v ps" by (simp add: upsert_def)
  with True show ?thesis by (simp only: keys_replaceKey insert_absorb)
next
  case False
  then have "upsert k v ps = insertKey k v ps" by (simp add: upsert_def)
  then show ?thesis by (simp only: keys_insertKey)
qed

lemma distinct_insertKey:
  "distinct (map fst ps) \<Longrightarrow> k \<notin> set (map fst ps) \<Longrightarrow> distinct (map fst (insertKey k v ps))"
proof (induction ps)
  case Nil
  then show ?case by simp
next
  case (Cons x ps)
  obtain k1 w where x: "x = (k1, w)" by (cases x)
  have "k1 \<notin> set (map fst (insertKey k v ps))"
    unfolding keys_insertKey using Cons.prems x by auto
  with Cons x show ?case by auto
qed

lemma distinct_upsert: "distinct (map fst ps) \<Longrightarrow> distinct (map fst (upsert k v ps))"
  by (simp add: upsert_def keys_replaceKey distinct_insertKey)

lemma map_of_remove:
  "map_of (filter (\<lambda>(k1, x). k1 \<noteq> k) ps) j = (if j = k then None else map_of ps j)"
  by (induction ps) auto

lemma distinct_remove: "distinct (map fst ps) \<Longrightarrow> distinct (map fst (filter (\<lambda>(k1, x). k1 \<noteq> k) ps))"
  by (induction ps) auto

lemma getProp_plain:
  "lookup H a = Some (Plain ps) \<Longrightarrow>
   getProp H (VRef a) k = (case map_of ps k of Some w \<Rightarrow> w | None \<Rightarrow> VUndef)"
  by (simp add: getProp_def)

lemma below_not_onStack:
  assumes "below h st v" "acyclicPlain n h v"
  shows "\<not> onStack st v"
proof
  assume "onStack st v"
  then obtain f where f: "f \<in> set st" "frame_lhs f = v"
    by (auto simp: onStack_def strictEq_def)
  define m where "m = (LEAST j. acyclicPlain j h v)"
  have "acyclicPlain m h v" unfolding m_def using assms(2) by (rule LeastI)
  with assms(1) f obtain j where "j < m" "acyclicPlain j h v"
    by (auto simp: below_def)
  then show False unfolding m_def using not_less_Least by blast
qed

lemma below_child:
  assumes "below h st0 (VRef lo)" "lookup h lo = Some (Plain ps)" "k \<in> set (map fst ps)"
  shows "below h (st0 @ [Frame (VRef lo) R]) (getProp h (VRef lo) k)"
  unfolding below_def
proof (intro ballI allI impI)
  fix f m
  assume f: "f \<in> set (st0 @ [Frame (VRef lo) R])" and m: "acyclicPlain m h (frame_lhs f)"
  have c: "\<exists>j < i. acyclicPlain j h (getProp h (VRef lo) k)" if "acyclicPlain i h (VRef lo)" for i
  proof (cases i)
    case 0
    with that show ?thesis by simp
  next
    case (Suc i1)
    with that assms(2,3) have "acyclicPlain i1 h (getProp h (VRef lo) k)" by auto
    with Suc show ?thesis by blast
  qed
  show "\<exists>j < m. acyclicPlain j h (getProp h (VRef lo) k)"
  proof (cases "f \<in> set st0")
    case True
    with assms(1) m obtain i where "i < m" "acyclicPlain i h (VRef lo)"
      by (auto simp: below_def)
    with c [of i] show ?thesis by (meson less_trans)
  next
    case False
    with f have "frame_lhs f = VRef lo" by auto
    with m c [of m] show ?thesis by simp
  qed
qed
subsection \<open>Reverting the records of one key\<close>

lemma child_region:
  "k \<in> set (keys H (VRef a)) \<Longrightarrow>
   set (region m H (getProp H (VRef a) k)) \<subseteq> set (region (Suc m) H (VRef a))"
  by auto

lemma concat_map_disjoint:
  "distinct (concat (map f ks)) \<Longrightarrow> k \<in> set ks \<Longrightarrow> j \<in> set ks \<Longrightarrow> k \<noteq> j \<Longrightarrow>
   set (f k) \<inter> set (f j) = {}"
  by (induction ks) auto

lemma concat_map_distinct:
  "distinct (concat (map f ks)) \<Longrightarrow> k \<in> set ks \<Longrightarrow> distinct (f k)"
  by (induction ks) auto

lemma sameValue_ref_target:
  assumes "sameValue m H tv h (VRef b)"
  shows "\<exists>tc. tv = VRef tc"
proof (rule ccontr)
  assume "\<not> (\<exists>tc. tv = VRef tc)"
  then have "sameValue m H tv h (VRef b) = (tv = VRef b)" by (rule sameValue_prim)
  with assms \<open>\<not> (\<exists>tc. tv = VRef tc)\<close> show False by simp
qed

lemma sameValue_prim_target:
  assumes "sameValue m H tv h w" "\<not> (\<exists>b. w = VRef b)"
  shows "tv = w"
proof (cases "\<exists>tc. tv = VRef tc")
  case True
  with assms show ?thesis by (auto simp: sameValue_ref)
next
  case False
  with assms(1) show ?thesis by (simp add: sameValue_prim)
qed

lemma revertAll_single:
  "revertAll rac H t (rev (map toChange [r])) = revertChange rac H t (Some (toChange r))"
  by (cases "revertChange rac H t (Some (toChange r))") simp_all

text \<open>Setting the property \<open>k\<close> of the target to a value of the left side.\<close>

lemma write_left_value:
  assumes v: "acyclicPlain m h v" "set (region m h v) \<subseteq> LR"
    and LR: "\<And>a. a \<in> LR \<Longrightarrow> lookup Hc a = lookup h a" "ta \<notin> LR"
    and ta: "lookup Hc ta = Some (Plain tpsc)" "distinct (map fst tpsc)"
    and k: "k \<in> set (keys h L)"
  shows "length (Hc[ta := Plain (upsert k v tpsc)]) = length Hc \<and>
     lookup (Hc[ta := Plain (upsert k v tpsc)]) ta = Some (Plain (upsert k v tpsc)) \<and>
     distinct (map fst (upsert k v tpsc)) \<and>
     (\<forall>a. a \<noteq> ta \<longrightarrow> lookup (Hc[ta := Plain (upsert k v tpsc)]) a = lookup Hc a) \<and>
     (\<forall>j. j \<noteq> k \<longrightarrow> map_of (upsert k v tpsc) j = map_of tpsc j) \<and>
     (getProp h L k = v \<longrightarrow>
        keyDone h LR m (Hc[ta := Plain (upsert k v tpsc)]) L reg (upsert k v tpsc) k)"
proof -
  let ?H1 = "Hc[ta := Plain (upsert k v tpsc)]"
  have lt: "ta < length Hc" using ta(1) by (rule lookup_less)
  have ag: "lookup ?H1 a = lookup h a" if "a \<in> set (region m h v)" for a
  proof -
    from that v(2) have "a \<in> LR" by blast
    with LR have "a \<noteq> ta" "lookup Hc a = lookup h a" by auto
    then show ?thesis by (simp add: lookup_update)
  qed
  have s: "sameValue m ?H1 v h v"
    using v(1) ag by (rule sameValue_self)
  have "region m ?H1 v = region m h v"
    using ag by (rule region_cong)
  with v(2) have r: "set (region m ?H1 v) \<subseteq> reg \<union> LR" by auto
  show ?thesis
    using lt s r k ta(2)
    by (simp add: lookup_update map_of_upsert distinct_upsert keyDone_def)
qed

lemma key_step:
  assumes IH0: "roundTrip rac hash opt h LR troot m"
    and pf: "\<And>q j. \<not> prefiltered opt q j"
    and lo: "acyclicPlain (Suc m) h (VRef lo)"
    and ro: "acyclicPlain (Suc m) h (VRef ro)"
    and bl: "below h st0 (VRef lo)"
    and sub: "set (region (Suc m) h (VRef lo)) \<subseteq> LR"
    and cp: "copyAt h LR (Suc m) H0 troot p ta ro"
    and len: "length Hc = length H0"
    and fr: "\<And>a. a \<notin> set (region (Suc m) H0 (VRef ta)) \<Longrightarrow> lookup Hc a = lookup H0 a"
    and t0: "lookup H0 ta = Some (Plain tps0)"
    and tc: "lookup Hc ta = Some (Plain tpsc)" "distinct (map fst tpsc)"
    and pr: "map_of tpsc k = map_of tps0 k"
      "\<And>a. a \<in> set (region m H0 (getProp H0 (VRef ta) k)) \<Longrightarrow> lookup Hc a = lookup H0 a"
    and k: "k \<in> set (keys h (VRef lo)) \<union> set (keys h (VRef ro))"
  shows "\<exists>H1 tps1.
      revertAll rac Hc troot (rev (map toChange
        (keyRecords hash opt h (VRef lo) (VRef ro) p (st0 @ [Frame (VRef lo) (VRef ro)]) k)))
        = Inr H1 \<and>
      length H1 = length Hc \<and> lookup H1 ta = Some (Plain tps1) \<and> distinct (map fst tps1) \<and>
      (\<forall>a. a \<noteq> ta \<longrightarrow> a \<notin> set (region m H0 (getProp H0 (VRef ta) k)) \<longrightarrow>
           lookup H1 a = lookup Hc a) \<and>
      (\<forall>j. j \<noteq> k \<longrightarrow> map_of tps1 j = map_of tpsc j) \<and>
      keyDone h LR m H1 (VRef lo) (set (region m H0 (getProp H0 (VRef ta) k))) tps1 k"
proof -
  note IH = IH0 [unfolded roundTrip_def, rule_format]
  let ?L = "VRef lo" and ?R = "VRef ro" and ?T = "VRef ta"
  let ?st = "st0 @ [Frame ?L ?R]"
  let ?v = "getProp h ?L k" and ?w = "getProp h ?R k" and ?tv = "getProp H0 ?T k"
  let ?reg = "set (region m H0 ?tv)"
  from lo [unfolded acyclicPlain_ref] obtain ps where
    ps: "lookup h lo = Some (Plain ps)" "distinct (map fst ps)" "[] \<notin> set (map fst ps)"
    "\<And>j. j \<in> set (map fst ps) \<Longrightarrow> acyclicPlain m h (getProp h ?L j)"
    and np: "''__proto__'' \<notin> set (map fst ps)"
    by auto
  from ro [unfolded acyclicPlain_ref] obtain qs where
    qs: "lookup h ro = Some (Plain qs)" "distinct (map fst qs)" "[] \<notin> set (map fst qs)"
    "\<And>j. j \<in> set (map fst qs) \<Longrightarrow> acyclicPlain m h (getProp h ?R j)"
    by auto
  have kl: "keys h ?L = map fst ps" and kr: "keys h ?R = map fst qs"
    using ps(1) qs(1) by (simp_all add: keys_plain)
  from cp have c:
    "sameValue (Suc m) H0 ?T h ?R" "distinct (region (Suc m) H0 ?T)"
    "set (region (Suc m) H0 ?T) \<inter> LR = {}" "\<And>a. a \<in> LR \<Longrightarrow> lookup H0 a = lookup h a"
    "reach H0 troot p = Some ?T" "set (pathObjs H0 troot p) \<inter> set (region (Suc m) H0 ?T) = {}"
    "truthy troot"
    by (simp_all add: copyAt_def)
  from c(1) t0 qs(1) have s0:
    "distinct (map fst tps0)" "set (map fst tps0) = set (map fst qs)"
    "\<And>j. j \<in> set (map fst qs) \<Longrightarrow> sameValue m H0 (getProp H0 ?T j) h (getProp h ?R j)"
    by (auto simp: sameValue_ref)
  have kt: "keys H0 ?T = map fst tps0" using t0 by (simp add: keys_plain)
  have taR: "ta \<in> set (region (Suc m) H0 ?T)" by simp
  with c(3) have taLR: "ta \<notin> LR" by blast
  have agL: "lookup Hc a = lookup h a" if "a \<in> LR" for a
  proof -
    from that c(3) have "a \<notin> set (region (Suc m) H0 ?T)" by blast
    then have "lookup Hc a = lookup H0 a" by (rule fr)
    with c(4) [OF that] show ?thesis by simp
  qed
  have rc: "reach Hc troot p = Some ?T"
  proof -
    have "reach Hc troot p = reach H0 troot p"
    proof (rule reach_cong)
      fix a assume "a \<in> set (pathObjs H0 troot p)"
      with c(6) have "a \<notin> set (region (Suc m) H0 ?T)" by blast
      then show "lookup Hc a = lookup H0 a" by (rule fr)
    qed
    with c(5) show ?thesis by simp
  qed
  have po: "pathObjs Hc troot p = pathObjs H0 troot p"
  proof (rule pathObjs_cong)
    fix a assume "a \<in> set (pathObjs H0 troot p)"
    with c(6) have "a \<notin> set (region (Suc m) H0 ?T)" by blast
    then show "lookup Hc a = lookup H0 a" by (rule fr)
  qed
  have gc: "getProp Hc ?T k = ?tv"
    using tc(1) t0 pr(1) by (simp add: getProp_plain)
  have lt: "ta < length Hc" using tc(1) by (rule lookup_less)
  have vsub: "set (region m h ?v) \<subseteq> LR" if "k \<in> set (map fst ps)"
    using child_region [of k h lo m] that kl sub by auto
  note rs = revert_set [OF rc tc(1) c(7), where rac = rac and k = k]
  show ?thesis
  proof (cases "k \<in> set (map fst ps)")
    case False
    with k kl kr have kq: "k \<in> set (map fst qs)" by auto
    have recs: "keyRecords hash opt h ?L ?R p ?st k = [RawN (p @ [k]) ?w]"
      using False kl by (simp add: keyRecords_def)
    show ?thesis
      unfolding recs revertAll_single rs(3)
      using False lt tc(2) kl
      by (intro exI [of _ "Hc[ta := Plain (filter (\<lambda>(k1, x). k1 \<noteq> k) tpsc)]"]
            exI [of _ "filter (\<lambda>(k1, x). k1 \<noteq> k) tpsc"])
         (simp add: lookup_update map_of_remove distinct_remove keyDone_def)
  next
    case True
    note kp = this
    have knp: "k \<noteq> ''__proto__''" using kp np by metis
    note rsw = rs(1) [OF knp] rs(2) [OF knp]
    have av: "acyclicPlain m h ?v" using ps(4) [OF kp] .
    note wl = write_left_value [OF av vsub [OF kp] agL taLR tc, of k ?L ?reg]
    show ?thesis
    proof (cases "k \<in> set (map fst qs)")
      case False
      have recs: "keyRecords hash opt h ?L ?R p ?st k = [RawD (p @ [k]) ?v]"
        using kp False kl kr by (simp add: keyRecords_def)
      show ?thesis
        unfolding recs revertAll_single rsw(2)
        using wl kp kl
        by (intro exI [of _ "Hc[ta := Plain (upsert k ?v tpsc)]"]
              exI [of _ "upsert k ?v tpsc"])
           simp
    next
      case True
      note kq = this
      have aw: "acyclicPlain m h ?w" using qs(4) [OF kq] .
      have recs: "keyRecords hash opt h ?L ?R p ?st k =
          snd (deepDiff hash opt h ?v ?w [] p (Some k) ?st)"
        using kp kq kl kr by (simp add: keyRecords_def)
      have kne: "k \<noteq> []" using kp ps(3) by metis
      have own: "hasOwn h ?L k" "hasOwn h ?R k"
        using kp kq ps(1) qs(1) by (auto simp: hasOwn_def)
      note both = deepDiff_both [OF kne pf own(1) _ own(2) _
          acyclicPlain_plainValue [OF av] acyclicPlain_plainValue [OF aw], of hash p st0,
          simplified]
      have sv: "sameValue m H0 ?tv h ?w" using s0(3) [OF kq] .
      have kt0: "k \<in> set (map fst tps0)" using kq s0(2) by simp
      then obtain x0 where x0: "map_of tps0 k = Some x0"
        by (cases "map_of tps0 k") (auto simp: map_of_eq_None_iff)
      then have tv0: "?tv = x0" using t0 by (simp add: getProp_plain)
      show ?thesis
      proof (cases "\<exists>a b. ?v = VRef a \<and> ?w = VRef b")
        case True
        then obtain a b where ab: "?v = VRef a" "?w = VRef b" by blast
        from sv ab obtain tcc where tcc: "?tv = VRef tcc"
          using sameValue_ref_target by metis
        have blc: "below h ?st ?v"
          using bl ps(1) kp by (rule below_child)
        then have nos: "\<not> onStack ?st ?v" using av by (rule below_not_onStack)
        have recs2: "keyRecords hash opt h ?L ?R p ?st k =
            snd (descend hash opt h (VRef a) (VRef b) [] (p @ [k])
                   (?st @ [Frame (VRef a) (VRef b)]))"
          unfolding recs using both nos ab by simp
        have regc: "region m Hc (VRef tcc) = region m H0 (VRef tcc)"
          using pr(2) unfolding tcc by (intro region_cong) simp
        have ktk: "k \<in> set (keys H0 ?T)" using kt kt0 by simp
        have rsub: "set (region m H0 (VRef tcc)) \<subseteq> set (region (Suc m) H0 ?T)"
          using child_region [OF ktk, of m] tcc by simp
        have dk: "distinct (region m H0 (VRef tcc))"
          using c(2) concat_map_distinct [of "\<lambda>j. region m H0 (getProp H0 ?T j)" "keys H0 ?T" k]
            ktk tcc by simp
        have tan: "ta \<notin> set (region m H0 (VRef tcc))"
          using c(2) ktk tcc by auto
        have cpc: "copyAt h LR m Hc troot (p @ [k]) tcc b"
          unfolding copyAt_def
        proof (intro conjI)
          have "sameValue m Hc (VRef tcc) h (VRef b) = sameValue m H0 (VRef tcc) h (VRef b)"
            using pr(2) unfolding tcc by (intro sameValue_cong) simp
          with sv ab tcc show "sameValue m Hc (VRef tcc) h (VRef b)" by simp
          show "distinct (region m Hc (VRef tcc))" using dk regc by simp
          show "set (region m Hc (VRef tcc)) \<inter> LR = {}" using rsub c(3) regc by auto
          show "\<forall>a \<in> LR. lookup Hc a = lookup h a" using agL by blast
          show "reach Hc troot (p @ [k]) = Some (VRef tcc)"
            using rc gc tcc by (simp add: reach_snoc)
          show "set (pathObjs Hc troot (p @ [k])) \<inter> set (region m Hc (VRef tcc)) = {}"
            using pathObjs_snoc [OF rc, of k] po c(6) rsub tan regc by auto
          show "truthy troot" by (rule c(7))
        qed
        have "revertsTo rac h LR m Hc troot tcc
            (snd (descend hash opt h (VRef a) (VRef b) [] (p @ [k])
                    (?st @ [Frame (VRef a) (VRef b)]))) a"
        proof (rule IH)
          show "acyclicPlain m h (VRef a)" using av ab by simp
          show "acyclicPlain m h (VRef b)" using aw ab by simp
          show "below h ?st (VRef a)" using blc ab by simp
          show "set (region m h (VRef a)) \<subseteq> LR" using vsub [OF kp] ab by simp
          show "copyAt h LR m Hc troot (p @ [k]) tcc b" by (rule cpc)
        qed
        then obtain H1 where H1:
          "revertAll rac Hc troot (rev (map toChange
             (keyRecords hash opt h ?L ?R p ?st k))) = Inr H1"
          "length H1 = length Hc"
          "\<And>x. x \<notin> set (region m Hc (VRef tcc)) \<Longrightarrow> lookup H1 x = lookup Hc x"
          "sameValue m H1 (VRef tcc) h (VRef a)"
          "set (region m H1 (VRef tcc)) \<subseteq> set (region m Hc (VRef tcc)) \<union> LR"
          unfolding revertsTo_def recs2 by blast
        have l1: "lookup H1 ta = Some (Plain tpsc)"
          using H1(3) [of ta] tan regc tc(1) by simp
        have mk: "map_of tpsc k = Some (VRef tcc)"
          using pr(1) x0 tv0 tcc by simp
        have "keyDone h LR m H1 ?L ?reg tpsc k"
          using kp kl mk H1(4,5) ab tcc regc by (simp add: keyDone_def)
        with H1(1,2,3) l1 tc(2) regc tcc show ?thesis
          by (intro exI [of _ H1] exI [of _ tpsc]) simp
      next
        case False
        then have recs3: "keyRecords hash opt h ?L ?R p ?st k =
            (if ?v = ?w then [] else [RawE (p @ [k]) ?v ?w])"
          unfolding recs using both by (auto split: val.splits)
        show ?thesis
        proof (cases "?v = ?w")
          case True
          with False have nw: "\<not> (\<exists>b. ?w = VRef b)" by auto
          from sameValue_prim_target [OF sv nw] have e: "?tv = ?w" .
          have nv: "\<not> (\<exists>a. ?tv = VRef a)" using nw e by simp
          have "keyDone h LR m Hc ?L ?reg tpsc k"
            using kp kl pr(1) x0 tv0 e True nv
            by (simp add: keyDone_def sameValue_prim region_prim)
          with True recs3 tc show ?thesis
            by (intro exI [of _ Hc] exI [of _ tpsc]) simp
        next
          case False
          with recs3 have recs4: "keyRecords hash opt h ?L ?R p ?st k = [RawE (p @ [k]) ?v ?w]"
            by simp
          show ?thesis
            unfolding recs4 revertAll_single rsw(1)
            using wl kp kl
            by (intro exI [of _ "Hc[ta := Plain (upsert k ?v tpsc)]"]
                  exI [of _ "upsert k ?v tpsc"])
               simp
        qed
      qed
    qed
  qed
qed
subsection \<open>The records of two plain objects, key by key\<close>

lemma descend_plain:
  assumes hu: "\<And>k w q key s. k \<in> set (map fst ps) \<Longrightarrow>
      fst (deepDiff hash opt h (getProp h (VRef lo) k) w [] q key s) = h"
    and pf: "\<And>q j. \<not> prefiltered opt q j"
    and ps: "lookup h lo = Some (Plain ps)" "[] \<notin> set (map fst ps)" "distinct (map fst ps)"
    and qs: "lookup h ro = Some (Plain qs)" "distinct (map fst qs)" "[] \<notin> set (map fst qs)"
    and st: "st = st0 @ [Frame (VRef lo) (VRef ro)]"
  shows "snd (descend hash opt h (VRef lo) (VRef ro) [] p st) =
     concat (map (keyRecords hash opt h (VRef lo) (VRef ro) p st)
               (map fst ps @ filter (\<lambda>k. k \<notin> set (map fst ps)) (map fst qs)))"
proof -
  let ?L = "VRef lo" and ?R = "VRef ro"
  have kl: "keys h ?L = map fst ps" and kr: "keys h ?R = map fst qs"
    using ps(1) qs(1) by (simp_all add: keys_plain)
  have na: "\<not> isArray h ?L" using ps(1) by (simp add: isArray_def)
  have d: "distinct (filter (\<lambda>x. x \<noteq> None) (map Some (map fst qs)))"
    using qs(2) by (simp add: distinct_map filter_map comp_def inj_on_def)
  have l: "lhsKeysLoop hash opt h ?L ?R (map fst ps) (map Some (map fst qs)) [] p st =
     (h,
      concat (map (\<lambda>k. snd (deepDiff hash opt h (getProp h ?L k)
                 (if Some k \<in> set (map Some (map fst qs)) then getProp h ?R k else VNull)
                 [] p (Some k) st)) (map fst ps)),
      map (\<lambda>x. if x \<in> Some ` set (map fst ps) then None else x) (map Some (map fst qs)))"
    using hu ps(3) d by (rule lhsKeysLoop_plain)
  have own: "hasOwn h ?L k = (k \<in> set (map fst ps))" "hasOwn h ?R k = (k \<in> set (map fst qs))"
    for k
    using ps(1) qs(1) by (simp_all add: hasOwn_def)
  have left: "snd (deepDiff hash opt h (getProp h ?L k)
                 (if Some k \<in> set (map Some (map fst qs)) then getProp h ?R k else VNull)
                 [] p (Some k) st) = keyRecords hash opt h ?L ?R p st k"
    if "k \<in> set (map fst ps)" for k
  proof (cases "k \<in> set (map fst qs)")
    case True
    with that show ?thesis by (auto simp: keyRecords_def kl kr)
  next
    case False
    have kne: "k \<noteq> []" using that ps(2) by metis
    have "deepDiff hash opt h (getProp h ?L k) VNull [] p (Some k)
            (st0 @ [Frame ?L ?R]) = (h, [RawD (p @ [k]) (getProp h ?L k)])"
      using kne pf that False by (intro deepDiff_left_only) (simp_all add: own)
    with that False show ?thesis by (auto simp: keyRecords_def kl kr st)
  qed
  have right: "snd (deepDiff hash opt h VNull (getProp h ?R k) [] p (Some k) st) =
      keyRecords hash opt h ?L ?R p st k"
    if "k \<in> set (map fst qs)" "k \<notin> set (map fst ps)" for k
  proof -
    have kne: "k \<noteq> []" using that qs(3) by metis
    have "deepDiff hash opt h VNull (getProp h ?R k) [] p (Some k)
            (st0 @ [Frame ?L ?R]) = (h, [RawN (p @ [k]) (getProp h ?R k)])"
      using kne pf that by (intro deepDiff_right_only) (simp_all add: own)
    with that show ?thesis by (simp add: keyRecords_def kl kr st)
  qed
  have f: "filter keyTruthy (map (\<lambda>x. if x \<in> Some ` set (map fst ps) then None else x)
             (map Some (map fst qs))) =
           map Some (filter (\<lambda>k. k \<notin> set (map fst ps)) (map fst qs))"
    using qs(3)
  proof (induction qs)
    case Nil
    then show ?case by simp
  next
    case (Cons q qs)
    then have "fst q \<noteq> []" by auto
    with Cons show ?case by (auto simp: image_iff)
  qed
  have c1: "concat (map (\<lambda>k. snd (deepDiff hash opt h (getProp h ?L k)
                 (if Some k \<in> set (map Some (map fst qs)) then getProp h ?R k else VNull)
                 [] p (Some k) st)) (map fst ps)) =
            concat (map (keyRecords hash opt h ?L ?R p st) (map fst ps))"
    using left by (intro arg_cong [where f = concat] map_cong refl) blast
  have c2: "concat (map (\<lambda>x. snd (deepDiff hash opt h VNull (getProp h ?R (keyString x)) [] p x st))
              (map Some (filter (\<lambda>k. k \<notin> set (map fst ps)) (map fst qs)))) =
            concat (map (keyRecords hash opt h ?L ?R p st)
              (filter (\<lambda>k. k \<notin> set (map fst ps)) (map fst qs)))"
    unfolding map_map comp_def keyString_simps
    using right by (intro arg_cong [where f = concat] map_cong refl) auto
  show ?thesis
    unfolding descend_eq [of hash opt h ?L ?R "[]" p st]
    using na
    by (simp only: if_False snd_conv fst_conv kl kr l rhsKeysLoop_plain f c1 c2
          append_Nil map_append concat_append)
qed

lemma rev_map_concat:
  "rev (map f (concat (map g ks))) = concat (map (\<lambda>k. rev (map f (g k))) (rev ks))"
  by (induction ks) simp_all

lemma child_regions:
  assumes "lookup H ta = Some (Plain tps)" "distinct (region (Suc m) H (VRef ta))"
  shows "set (region m H (getProp H (VRef ta) j)) \<subseteq> set (region (Suc m) H (VRef ta)) - {ta}"
    and "j \<noteq> k \<Longrightarrow>
         set (region m H (getProp H (VRef ta) j)) \<inter> set (region m H (getProp H (VRef ta) k)) = {}"
proof -
  have kt: "keys H (VRef ta) = map fst tps" using assms(1) by (rule keys_plain)
  have und: "region m H (getProp H (VRef ta) i) = []" if "i \<notin> set (map fst tps)" for i
  proof -
    from that have "map_of tps i = None" by (simp add: map_of_eq_None_iff)
    then have "getProp H (VRef ta) i = VUndef" using assms(1) by (simp add: getProp_plain)
    then show ?thesis by (simp add: region_prim)
  qed
  let ?f = "\<lambda>i. region m H (getProp H (VRef ta) i)"
  from assms(2) have d: "ta \<notin> set (concat (map ?f (map fst tps)))"
    "distinct (concat (map ?f (map fst tps)))"
    unfolding region_ref kt by simp_all
  show "set (?f j) \<subseteq> set (region (Suc m) H (VRef ta)) - {ta}"
  proof (cases "j \<in> set (map fst tps)")
    case True
    then have "set (?f j) \<subseteq> set (concat (map ?f (map fst tps)))" by auto
    with d(1) show ?thesis unfolding region_ref kt by auto
  next
    case False
    then show ?thesis by (simp add: und)
  qed
  show "set (?f j) \<inter> set (?f k) = {}" if "j \<noteq> k"
  proof (cases "j \<in> set (map fst tps) \<and> k \<in> set (map fst tps)")
    case True
    with d(2) that show ?thesis by (intro concat_map_disjoint [of ?f "map fst tps"]) simp_all
  next
    case False
    then show ?thesis using und [of j] und [of k] by auto
  qed
qed
subsection \<open>Reverting the records of all keys\<close>

lemma keyDone_frame:
  assumes kd: "keyDone h LR m H1 L reg tps1 k"
    and mo: "map_of tps2 k = map_of tps1 k"
    and ag: "\<And>a. a \<in> reg \<union> LR \<Longrightarrow> lookup H2 a = lookup H1 a"
  shows "keyDone h LR m H2 L reg tps2 k"
proof (cases "k \<in> set (keys h L)")
  case False
  with kd mo show ?thesis by (simp add: keyDone_def)
next
  case True
  with kd obtain x where x: "map_of tps1 k = Some x" "sameValue m H1 x h (getProp h L k)"
    "set (region m H1 x) \<subseteq> reg \<union> LR"
    by (auto simp: keyDone_def split: option.splits)
  have a: "lookup H2 a = lookup H1 a" if "a \<in> set (region m H1 x)" for a
    using that x(3) ag by blast
  have "sameValue m H2 x h (getProp h L k) = sameValue m H1 x h (getProp h L k)"
    using a by (rule sameValue_cong)
  moreover have "region m H2 x = region m H1 x"
    using a by (rule region_cong)
  ultimately show ?thesis using True x mo by (simp add: keyDone_def)
qed

lemma keys_loop:
  assumes IH: "roundTrip rac hash opt h LR troot m"
    and pf: "\<And>q j. \<not> prefiltered opt q j"
    and lo: "acyclicPlain (Suc m) h (VRef lo)"
    and ro: "acyclicPlain (Suc m) h (VRef ro)"
    and bl: "below h st0 (VRef lo)"
    and sub: "set (region (Suc m) h (VRef lo)) \<subseteq> LR"
    and cp: "copyAt h LR (Suc m) H0 troot p ta ro"
    and t0: "lookup H0 ta = Some (Plain tps0)"
    and js: "distinct js" "set js \<subseteq> set (keys h (VRef lo)) \<union> set (keys h (VRef ro))"
    and len: "length Hc = length H0"
    and fr: "\<And>a. a \<notin> set (region (Suc m) H0 (VRef ta)) \<Longrightarrow> lookup Hc a = lookup H0 a"
    and tc: "lookup Hc ta = Some (Plain tpsc)" "distinct (map fst tpsc)"
    and pr: "\<And>j. j \<in> set js \<Longrightarrow> map_of tpsc j = map_of tps0 j"
      "\<And>j a. j \<in> set js \<Longrightarrow> a \<in> set (region m H0 (getProp H0 (VRef ta) j)) \<Longrightarrow>
         lookup Hc a = lookup H0 a"
  shows "\<exists>H1 tps1.
      revertAll rac Hc troot (concat (map (\<lambda>k. rev (map toChange
        (keyRecords hash opt h (VRef lo) (VRef ro) p (st0 @ [Frame (VRef lo) (VRef ro)]) k))) js))
        = Inr H1 \<and>
      length H1 = length Hc \<and> lookup H1 ta = Some (Plain tps1) \<and> distinct (map fst tps1) \<and>
      (\<forall>a. a \<noteq> ta \<longrightarrow> (\<forall>j \<in> set js. a \<notin> set (region m H0 (getProp H0 (VRef ta) j))) \<longrightarrow>
           lookup H1 a = lookup Hc a) \<and>
      (\<forall>j. j \<notin> set js \<longrightarrow> map_of tps1 j = map_of tpsc j) \<and>
      (\<forall>j \<in> set js.
         keyDone h LR m H1 (VRef lo) (set (region m H0 (getProp H0 (VRef ta) j))) tps1 j)"
  using js len fr tc pr
proof (induction js arbitrary: Hc tpsc)
  case Nil
  then show ?case by (intro exI [of _ Hc] exI [of _ tpsc]) simp
next
  case (Cons k js)
  let ?reg = "\<lambda>j. set (region m H0 (getProp H0 (VRef ta) j))"
  let ?KR = "\<lambda>k. rev (map toChange
        (keyRecords hash opt h (VRef lo) (VRef ro) p (st0 @ [Frame (VRef lo) (VRef ro)]) k))"
  from cp have c: "distinct (region (Suc m) H0 (VRef ta))"
    "set (region (Suc m) H0 (VRef ta)) \<inter> LR = {}"
    by (simp_all add: copyAt_def)
  note cr = child_regions [OF t0 c(1)]
  from Cons.prems(1) have kj: "k \<notin> set js" "distinct js" by simp_all
  from Cons.prems(2) have km: "k \<in> set (keys h (VRef lo)) \<union> set (keys h (VRef ro))"
    and jm: "set js \<subseteq> set (keys h (VRef lo)) \<union> set (keys h (VRef ro))" by simp_all
  have prk: "map_of tpsc k = map_of tps0 k" by (rule Cons.prems(7)) simp
  have prr: "lookup Hc a = lookup H0 a" if "a \<in> ?reg k" for a
    using Cons.prems(8) [of k a] that by simp
  have "\<exists>H1 tps1.
      revertAll rac Hc troot (?KR k) = Inr H1 \<and>
      length H1 = length Hc \<and> lookup H1 ta = Some (Plain tps1) \<and> distinct (map fst tps1) \<and>
      (\<forall>a. a \<noteq> ta \<longrightarrow> a \<notin> ?reg k \<longrightarrow> lookup H1 a = lookup Hc a) \<and>
      (\<forall>j. j \<noteq> k \<longrightarrow> map_of tps1 j = map_of tpsc j) \<and>
      keyDone h LR m H1 (VRef lo) (?reg k) tps1 k"
    using IH pf lo ro bl sub cp Cons.prems(3) Cons.prems(4) t0 Cons.prems(5) Cons.prems(6)
      prk prr km
    by (rule key_step)
  then obtain H1 tps1 where s:
    "revertAll rac Hc troot (?KR k) = Inr H1" "length H1 = length Hc"
    "lookup H1 ta = Some (Plain tps1)" "distinct (map fst tps1)"
    "\<And>a. a \<noteq> ta \<Longrightarrow> a \<notin> ?reg k \<Longrightarrow> lookup H1 a = lookup Hc a"
    "\<And>j. j \<noteq> k \<Longrightarrow> map_of tps1 j = map_of tpsc j"
    "keyDone h LR m H1 (VRef lo) (?reg k) tps1 k"
    by blast
  have len1: "length H1 = length H0" using s(2) Cons.prems(3) by simp
  have fr1: "lookup H1 a = lookup H0 a" if "a \<notin> set (region (Suc m) H0 (VRef ta))" for a
  proof -
    from that cr(1) [of k] have "a \<noteq> ta" "a \<notin> ?reg k" by auto
    then have "lookup H1 a = lookup Hc a" by (rule s(5))
    with Cons.prems(4) [OF that] show ?thesis by simp
  qed
  have pr1: "map_of tps1 j = map_of tps0 j" if "j \<in> set js" for j
  proof -
    from that kj have "j \<noteq> k" by auto
    then have "map_of tps1 j = map_of tpsc j" by (rule s(6))
    with Cons.prems(7) [of j] that show ?thesis by simp
  qed
  have pr2: "lookup H1 a = lookup H0 a" if "j \<in> set js" "a \<in> ?reg j" for j a
  proof -
    from that kj have "j \<noteq> k" by auto
    with cr(2) [of j k] that(2) have "a \<notin> ?reg k" by auto
    moreover from cr(1) [of j] that(2) have "a \<noteq> ta" by auto
    ultimately have "lookup H1 a = lookup Hc a" by (intro s(5))
    with Cons.prems(8) [of j a] that show ?thesis by simp
  qed
  have "\<exists>H2 tps2.
      revertAll rac H1 troot (concat (map ?KR js)) = Inr H2 \<and>
      length H2 = length H1 \<and> lookup H2 ta = Some (Plain tps2) \<and> distinct (map fst tps2) \<and>
      (\<forall>a. a \<noteq> ta \<longrightarrow> (\<forall>j \<in> set js. a \<notin> ?reg j) \<longrightarrow> lookup H2 a = lookup H1 a) \<and>
      (\<forall>j. j \<notin> set js \<longrightarrow> map_of tps2 j = map_of tps1 j) \<and>
      (\<forall>j \<in> set js. keyDone h LR m H2 (VRef lo) (?reg j) tps2 j)"
    using kj(2) jm len1 fr1 s(3) s(4) pr1 pr2 by (rule Cons.IH)
  then obtain H2 tps2 where t:
    "revertAll rac H1 troot (concat (map ?KR js)) = Inr H2" "length H2 = length H1"
    "lookup H2 ta = Some (Plain tps2)" "distinct (map fst tps2)"
    "\<And>a. a \<noteq> ta \<Longrightarrow> (\<forall>j \<in> set js. a \<notin> ?reg j) \<Longrightarrow> lookup H2 a = lookup H1 a"
    "\<And>j. j \<notin> set js \<Longrightarrow> map_of tps2 j = map_of tps1 j"
    "\<And>j. j \<in> set js \<Longrightarrow> keyDone h LR m H2 (VRef lo) (?reg j) tps2 j"
    by blast
  have r: "revertAll rac Hc troot (concat (map ?KR (k # js))) = Inr H2"
    using s(1) t(1) by (simp add: revertAll_append)
  have f2: "lookup H2 a = lookup Hc a" if "a \<noteq> ta" "\<forall>j \<in> set (k # js). a \<notin> ?reg j" for a
  proof -
    from that have "lookup H2 a = lookup H1 a" by (intro t(5)) simp_all
    moreover from that have "lookup H1 a = lookup Hc a" by (intro s(5)) simp_all
    ultimately show ?thesis by simp
  qed
  have m2: "map_of tps2 j = map_of tpsc j" if "j \<notin> set (k # js)" for j
    using that t(6) [of j] s(6) [of j] by simp
  have kd: "keyDone h LR m H2 (VRef lo) (?reg k) tps2 k"
    using s(7)
  proof (rule keyDone_frame)
    show "map_of tps2 k = map_of tps1 k" using kj(1) by (rule t(6))
    fix a assume a: "a \<in> ?reg k \<union> LR"
    have "a \<noteq> ta" using a cr(1) [of k] c(2) by auto
    moreover have "\<forall>j \<in> set js. a \<notin> ?reg j"
    proof
      fix j assume j: "j \<in> set js"
      with kj have "j \<noteq> k" by auto
      from cr(2) [OF this] cr(1) [of j] c(2) a show "a \<notin> ?reg j" by auto
    qed
    ultimately show "lookup H2 a = lookup H1 a" by (rule t(5))
  qed
  show ?case
    using r t(2) s(2) t(3) t(4) f2 m2 kd t(7)
    by (intro exI [of _ H2] exI [of _ tps2]) simp
qed
subsection \<open>The round trip\<close>

lemma keyDone_left:
  "keyDone h LR m H1 L reg tps k \<Longrightarrow> k \<in> set (keys h L) \<Longrightarrow>
   \<exists>x. map_of tps k = Some x \<and> sameValue m H1 x h (getProp h L k) \<and>
       set (region m H1 x) \<subseteq> reg \<union> LR"
  by (auto simp: keyDone_def split: option.splits)

lemma keyDone_right:
  "keyDone h LR m H1 L reg tps k \<Longrightarrow> k \<notin> set (keys h L) \<Longrightarrow> map_of tps k = None"
  by (simp add: keyDone_def)

text \<open>The comparison sorts arrays only: under a left value without arrays the heap stays
  as it is, whatever the options are.\<close>

lemma lhsKeysLoop_heap:
  "(\<And>k w q key s. k \<in> set ks \<Longrightarrow>
      fst (deepDiff hash opt h (getProp h lhs k) w [] q key s) = h) \<Longrightarrow>
   fst (lhsKeysLoop hash opt h lhs rhs ks rks [] p st) = h"
proof (induction ks arbitrary: rks)
  case Nil
  show ?case by simp
next
  case (Cons k ks)
  have a: "fst (deepDiff hash opt h (getProp h lhs k) w [] q key s) = h" for w q key s
    using Cons.prems [of k w q key s] by simp
  have b: "fst (lhsKeysLoop hash opt h lhs rhs ks rks1 [] p st) = h" for rks1
  proof (rule Cons.IH)
    fix j w q key s assume "j \<in> set ks"
    then show "fst (deepDiff hash opt h (getProp h lhs j) w [] q key s) = h"
      using Cons.prems [of j w q key s] by simp
  qed
  show ?case by (simp add: lhsKeysLoop_Cons Let_def a b del: indexOf.simps)
qed

lemma rhsKeysLoop_heap: "fst (rhsKeysLoop hash opt h rhs rks [] p st) = h"
  by (simp add: rhsKeysLoop_plain)

lemma heap_plain:
  "acyclicPlain n h lhs \<Longrightarrow> fst (deepDiff hash opt h lhs rhs [] p key st) = h"
proof (induction n arbitrary: lhs rhs p key st)
  case 0
  then have "\<not> typeofObject lhs \<or> \<not> truthy lhs" by (cases lhs) auto
  moreover from 0 have "\<not> bothRegexp h lhs rhs"
    by (cases lhs) (auto simp: bothRegexp_def realTypeOf_def split: number.splits)
  ultimately show ?case by (auto simp: deepDiff_eq compare_eq)
next
  case (Suc n)
  show ?case
  proof (cases "\<exists>a. lhs = VRef a")
    case False
    then have "\<not> typeofObject lhs \<or> \<not> truthy lhs" by (cases lhs) auto
    moreover from False have "\<not> bothRegexp h lhs rhs"
      by (cases lhs) (auto simp: bothRegexp_def realTypeOf_def split: number.splits)
    ultimately show ?thesis by (auto simp: deepDiff_eq compare_eq)
  next
    case True
    then obtain a where a: "lhs = VRef a" by blast
    from Suc.prems [unfolded a acyclicPlain_ref] obtain ps where
      ps: "lookup h a = Some (Plain ps)"
      "\<And>k. k \<in> set (map fst ps) \<Longrightarrow> acyclicPlain n h (getProp h (VRef a) k)"
      by auto
    have nr: "\<not> bothRegexp h lhs rhs"
      using ps(1) a by (simp add: bothRegexp_def realTypeOf_def)
    have na: "\<not> isArray h lhs" using ps(1) a by (simp add: isArray_def)
    have kl: "keys h lhs = map fst ps" using ps(1) a by (simp add: keys_plain)
    have "fst (lhsKeysLoop hash opt h lhs w (keys h lhs) rks [] q s) = h" for w rks q s
    proof (rule lhsKeysLoop_heap)
      fix k w q key s assume "k \<in> set (keys h lhs)"
      then have "acyclicPlain n h (getProp h lhs k)" using ps(2) [of k] kl a by simp
      then show "fst (deepDiff hash opt h (getProp h lhs k) w [] q key s) = h"
        by (rule Suc.IH)
    qed
    then have "fst (descend hash opt h lhs w [] q s) = h" for w q s
      using na by (simp add: descend_eq rhsKeysLoop_heap)
    then show ?thesis using nr by (simp add: deepDiff_eq compare_eq)
  qed
qed

lemma roundTrip_Suc:
  assumes IH: "roundTrip rac hash opt h LR troot m"
    and pf: "\<And>q j. \<not> prefiltered opt q j"
  shows "roundTrip rac hash opt h LR troot (Suc m)"
  unfolding roundTrip_def
proof (intro allI impI)
  fix lo ro ta p st0 H
  assume lo: "acyclicPlain (Suc m) h (VRef lo)" and ro: "acyclicPlain (Suc m) h (VRef ro)"
    and bl: "below h st0 (VRef lo)" and sub: "set (region (Suc m) h (VRef lo)) \<subseteq> LR"
    and cp: "copyAt h LR (Suc m) H troot p ta ro"
  let ?L = "VRef lo" and ?R = "VRef ro" and ?T = "VRef ta"
  let ?st = "st0 @ [Frame ?L ?R]"
  let ?reg = "\<lambda>j. set (region m H (getProp H ?T j))"
  let ?KR = "keyRecords hash opt h ?L ?R p ?st"
  from lo [unfolded acyclicPlain_ref] obtain ps where
    ps: "lookup h lo = Some (Plain ps)" "distinct (map fst ps)" "[] \<notin> set (map fst ps)"
    "\<And>j. j \<in> set (map fst ps) \<Longrightarrow> acyclicPlain m h (getProp h ?L j)"
    by auto
  from ro [unfolded acyclicPlain_ref] obtain qs where
    qs: "lookup h ro = Some (Plain qs)" "distinct (map fst qs)" "[] \<notin> set (map fst qs)"
    by auto
  have kl: "keys h ?L = map fst ps" and kr: "keys h ?R = map fst qs"
    using ps(1) qs(1) by (simp_all add: keys_plain)
  have hu: "fst (deepDiff hash opt h (getProp h ?L k) w [] q key s) = h"
    if "k \<in> set (map fst ps)" for k w q key s
    using ps(4) [OF that] by (rule heap_plain)
  from cp have c: "sameValue (Suc m) H ?T h ?R" "distinct (region (Suc m) H ?T)"
    by (simp_all add: copyAt_def)
  from c(1) qs(1) obtain tps0 where t0: "lookup H ta = Some (Plain tps0)"
    "distinct (map fst tps0)" "set (map fst tps0) = set (map fst qs)"
    by (auto simp: sameValue_ref)
  note cr = child_regions [OF t0(1) c(2)]
  let ?ks = "map fst ps @ filter (\<lambda>k. k \<notin> set (map fst ps)) (map fst qs)"
  have recs: "snd (descend hash opt h ?L ?R [] p ?st) = concat (map ?KR ?ks)"
    using hu pf ps(1,3,2) qs refl by (rule descend_plain)
  have dk: "distinct (rev ?ks)" using ps(2) qs(2) by auto
  have sk: "set (rev ?ks) \<subseteq> set (keys h ?L) \<union> set (keys h ?R)" using kl kr by auto
  have "\<exists>H1 tps1.
      revertAll rac H troot (concat (map (\<lambda>k. rev (map toChange (?KR k))) (rev ?ks))) = Inr H1 \<and>
      length H1 = length H \<and> lookup H1 ta = Some (Plain tps1) \<and> distinct (map fst tps1) \<and>
      (\<forall>a. a \<noteq> ta \<longrightarrow> (\<forall>j \<in> set (rev ?ks). a \<notin> ?reg j) \<longrightarrow> lookup H1 a = lookup H a) \<and>
      (\<forall>j. j \<notin> set (rev ?ks) \<longrightarrow> map_of tps1 j = map_of tps0 j) \<and>
      (\<forall>j \<in> set (rev ?ks). keyDone h LR m H1 ?L (?reg j) tps1 j)"
    using IH pf lo ro bl sub cp t0(1) dk sk refl refl t0(1) t0(2) refl refl
    by (rule keys_loop)
  then obtain H1 tps1 where s:
    "revertAll rac H troot (rev (map toChange (concat (map ?KR ?ks)))) = Inr H1"
    "length H1 = length H" "lookup H1 ta = Some (Plain tps1)" "distinct (map fst tps1)"
    "\<And>a. a \<noteq> ta \<Longrightarrow> (\<forall>j \<in> set ?ks. a \<notin> ?reg j) \<Longrightarrow> lookup H1 a = lookup H a"
    "\<And>j. j \<notin> set ?ks \<Longrightarrow> map_of tps1 j = map_of tps0 j"
    "\<And>j. j \<in> set ?ks \<Longrightarrow> keyDone h LR m H1 ?L (?reg j) tps1 j"
    unfolding rev_map_concat set_rev by blast
  have inl: "\<exists>x. map_of tps1 j = Some x \<and> sameValue m H1 x h (getProp h ?L j) \<and>
      set (region m H1 x) \<subseteq> ?reg j \<union> LR" if "j \<in> set (map fst ps)" for j
  proof -
    from that have "j \<in> set ?ks" by simp
    then have "keyDone h LR m H1 ?L (?reg j) tps1 j" by (rule s(7))
    moreover from that kl have "j \<in> set (keys h ?L)" by simp
    ultimately show ?thesis by (rule keyDone_left)
  qed
  have notl: "map_of tps1 j = None" if "j \<notin> set (map fst ps)" for j
  proof (cases "j \<in> set (map fst qs)")
    case True
    with that have "j \<in> set ?ks" by simp
    then have "keyDone h LR m H1 ?L (?reg j) tps1 j" by (rule s(7))
    moreover from that kl have "j \<notin> set (keys h ?L)" by simp
    ultimately show ?thesis by (rule keyDone_right)
  next
    case False
    with that have "j \<notin> set ?ks" by simp
    then have "map_of tps1 j = map_of tps0 j" by (rule s(6))
    moreover from False t0(3) have "map_of tps0 j = None" by (simp add: map_of_eq_None_iff)
    ultimately show ?thesis by simp
  qed
  have keys1: "set (map fst tps1) = set (map fst ps)"
  proof (intro set_eqI iffI)
    fix j assume "j \<in> set (map fst tps1)"
    then have n: "map_of tps1 j \<noteq> None" by (simp add: map_of_eq_None_iff)
    show "j \<in> set (map fst ps)"
    proof (rule ccontr)
      assume "j \<notin> set (map fst ps)"
      then have "map_of tps1 j = None" by (rule notl)
      with n show False by simp
    qed
  next
    fix j assume "j \<in> set (map fst ps)"
    then have "\<exists>x. map_of tps1 j = Some x \<and> sameValue m H1 x h (getProp h ?L j) \<and>
      set (region m H1 x) \<subseteq> ?reg j \<union> LR" by (rule inl)
    then obtain x where "map_of tps1 j = Some x" by (elim exE conjE)
    then have "map_of tps1 j \<noteq> None" by simp
    then show "j \<in> set (map fst tps1)" by (simp add: map_of_eq_None_iff)
  qed
  have frame: "lookup H1 a = lookup H a" if "a \<notin> set (region (Suc m) H ?T)" for a
  proof (rule s(5))
    show "a \<noteq> ta" using that by auto
    show "\<forall>j \<in> set ?ks. a \<notin> ?reg j" using that cr(1) by blast
  qed
  have same: "sameValue (Suc m) H1 ?T h ?L"
    unfolding sameValue_ref
  proof (intro exI conjI)
    show "Suc m = Suc m" "?L = VRef lo" by (rule refl)+
    show "lookup H1 ta = Some (Plain tps1)" by (rule s(3))
    show "lookup h lo = Some (Plain ps)" by (rule ps(1))
    show "distinct (map fst tps1)" by (rule s(4))
    show "set (map fst tps1) = set (map fst ps)" by (rule keys1)
    show "\<forall>k \<in> set (map fst ps). sameValue m H1 (getProp H1 ?T k) h (getProp h ?L k)"
    proof
      fix k assume "k \<in> set (map fst ps)"
      from inl [OF this] s(3) show "sameValue m H1 (getProp H1 ?T k) h (getProp h ?L k)"
        by (auto simp: getProp_plain)
    qed
  qed
  have reg: "set (region (Suc m) H1 ?T) \<subseteq> set (region (Suc m) H ?T) \<union> LR"
  proof -
    have "set (region m H1 (getProp H1 ?T k)) \<subseteq> set (region (Suc m) H ?T) \<union> LR"
      if "k \<in> set (map fst tps1)" for k
    proof -
      from that keys1 have "k \<in> set (map fst ps)" by simp
      from inl [OF this] s(3) have "set (region m H1 (getProp H1 ?T k)) \<subseteq> ?reg k \<union> LR"
        by (auto simp: getProp_plain)
      with cr(1) [of k] show ?thesis by blast
    qed
    then show ?thesis
      unfolding region_ref keys_plain [OF s(3)] by auto
  qed
  show "revertsTo rac h LR (Suc m) H troot ta (snd (descend hash opt h ?L ?R [] p ?st)) lo"
    unfolding revertsTo_def recs
    using s(1) s(2) frame same reg by (intro exI [of _ H1]) simp
qed

lemma roundTrip_all:
  assumes "\<And>q j. \<not> prefiltered opt q j"
  shows "roundTrip rac hash opt h LR troot n"
proof (induction n)
  case 0
  show ?case by (simp add: roundTrip_def)
next
  case (Suc n)
  then show ?case using assms by (rule roundTrip_Suc)
qed

lemma diff_plain:
  assumes "lookup h l = Some (Plain ps)" "lookup h r = Some (Plain qs)"
  shows "diff hash opt h (VRef l) (VRef r) =
     snd (descend hash opt h (VRef l) (VRef r) [] [] ([] @ [Frame (VRef l) (VRef r)]))"
  using assms lookup_less [OF assms(1)]
  by (simp add: diff_def deepDiff_eq compare_eq bothRegexp_def realTypeOf_def validRef_def
        onStack_def minusNonZero_def timeValue_def)

subsection \<open>C1: reverting a whole diff\<close>

text \<open>
  Claim C1: reverting the records of \<open>diff(left, right, _)\<close>, last one first, on a deep copy
  of \<open>right\<close> gives \<open>left\<close>, for any acyclic \<open>left\<close> and \<open>right\<close> whose arrays do not
  change at overlapping indices. The code breaks it at \<open>left = {}\<close> and
  \<open>right = {"": 1}\<close> (at the addresses 0 and 1 of \<open>heap_C1\<close>, the copy of \<open>right\<close> at 2),
  whatever the options and the array helper are: the loop over the right keys skips the
  key \<open>""\<close>, which is falsy, so \<open>diff\<close> has no record, nothing is reverted and the copy
  still has the property that \<open>left\<close> does not have.
\<close>

theorem C1_right_only_empty_key:
  "lookup heap_C1 0 = Some (Plain []) \<and>
   lookup heap_C1 1 = Some (Plain [('''', VNum (Num 1))]) \<and>
   lookup heap_C1 2 = lookup heap_C1 1 \<and>
   diff hash opt heap_C1 (VRef 0) (VRef 1) = [] \<and>
   revertAll rac heap_C1 (VRef 2) (rev (map toChange (diff hash opt heap_C1 (VRef 0) (VRef 1))))
     = Inr heap_C1 \<and>
   lookup heap_C1 2 \<noteq> lookup heap_C1 0"
proof -
  have d: "diff hash opt heap_C1 (VRef 0) (VRef 1) = []"
    by (simp add: diff_def deepDiff_simps heap_C1_def heap_defs lookup_def validRef_def)
  show ?thesis
    unfolding d by (simp add: heap_C1_def lookup_def)
qed

text \<open>
  Where no key is the empty string the round trip does hold, at least for plain objects.
  Let \<open>left\<close> and \<open>right\<close> be plain objects that are built, to any depth, from primitives
  and plain objects with distinct keys none of which is the empty string or \<open>__proto__\<close>
  (no cycle, no array, date or regular expression), and let the target be a copy of
  \<open>right\<close> that is a tree and shares no object with \<open>left\<close>. With a prefilter that
  suppresses nothing, in either mode of array comparison, reverting the records of
  \<open>diff(left, right, _)\<close>, each one read under its long member names, last one first,
  succeeds and leaves the target with the value of \<open>left\<close> (the same keys, in any order,
  and the same values under them); no object outside the copy is changed.
\<close>

lemma round_trip_plain:
  assumes l: "acyclicPlain n h (VRef l)" and r: "acyclicPlain n h (VRef r)"
    and s: "sameValue n h (VRef t) h (VRef r)"
    and d: "distinct (region n h (VRef t))"
    and dj: "set (region n h (VRef t)) \<inter> set (region n h (VRef l)) = {}"
    and pf: "\<And>q j. \<not> prefiltered opt q j"
  shows "\<exists>h1. revertAll rac h (VRef t) (rev (map toChange (diff hash opt h (VRef l) (VRef r))))
           = Inr h1 \<and>
         sameValue n h1 (VRef t) h (VRef l) \<and>
         (\<forall>a. a \<notin> set (region n h (VRef t)) \<longrightarrow> lookup h1 a = lookup h a)"
proof -
  let ?LR = "set (region n h (VRef l))"
  from l r obtain ps qs where pq: "lookup h l = Some (Plain ps)" "lookup h r = Some (Plain qs)"
    by (auto simp: acyclicPlain_ref)
  have rt: "roundTrip rac hash opt h ?LR (VRef t) n"
    using pf by (rule roundTrip_all)
  have cp: "copyAt h ?LR n h (VRef t) [] t r"
    using s d dj by (simp add: copyAt_def)
  have bl: "below h [] (VRef l)" by (simp add: below_def)
  have "revertsTo rac h ?LR n h (VRef t) t
      (snd (descend hash opt h (VRef l) (VRef r) [] [] ([] @ [Frame (VRef l) (VRef r)]))) l"
    using rt [unfolded roundTrip_def, rule_format, OF l r bl subset_refl cp] .
  then show ?thesis
    unfolding diff_plain [OF pq] revertsTo_def by blast
qed

text \<open>The round trip of \<open>{a: {b: 1}, c: 0}\<close> and \<open>{a: {b: 2}, d: 4}\<close>.\<close>

lemma round_trip_example:
  "acyclicPlain 2 heap_trip (VRef 0) \<and> acyclicPlain 2 heap_trip (VRef 2) \<and>
   sameValue 2 heap_trip (VRef 4) heap_trip (VRef 2) \<and>
   distinct (region 2 heap_trip (VRef 4)) \<and>
   set (region 2 heap_trip (VRef 4)) \<inter> set (region 2 heap_trip (VRef 0)) = {} \<and>
   diff hash0 defaultOptions heap_trip (VRef 0) (VRef 2) =
     [RawE [''a'', ''b''] (VNum (Num 1)) (VNum (Num 2)), RawD [''c''] (VNum (Num 0)),
      RawN [''d''] (VNum (Num 4))] \<and>
   (\<exists>h1. revertAll noArrays heap_trip (VRef 4)
            (rev (map toChange (diff hash0 defaultOptions heap_trip (VRef 0) (VRef 2)))) = Inr h1 \<and>
         sameValue 2 h1 (VRef 4) heap_trip (VRef 0) \<and> lookup h1 0 = lookup heap_trip 0)"
proof -
  have two: "(2 :: nat) = Suc (Suc 0)" by simp
  have h1: "acyclicPlain 2 heap_trip (VRef 0)" "acyclicPlain 2 heap_trip (VRef 2)"
    unfolding two by (simp_all add: heap_trip_def lookup_def getProp_def)
  have h3: "sameValue 2 heap_trip (VRef 4) heap_trip (VRef 2)"
    unfolding two by (simp add: heap_trip_def lookup_def getProp_def)
  have rg: "region 2 heap_trip (VRef 4) = [4, 5]" "region 2 heap_trip (VRef 0) = [0, 1]"
    unfolding two by (simp_all add: heap_trip_def lookup_def getProp_def keys_def)
  have h4: "distinct (region 2 heap_trip (VRef 4))"
    and h5: "set (region 2 heap_trip (VRef 4)) \<inter> set (region 2 heap_trip (VRef 0)) = {}"
    unfolding rg by simp_all
  have h7: "\<not> prefiltered defaultOptions q j" for q j
    by (simp add: prefiltered_def defaultOptions_def)
  have df: "diff hash0 defaultOptions heap_trip (VRef 0) (VRef 2) =
     [RawE [''a'', ''b''] (VNum (Num 1)) (VNum (Num 2)), RawD [''c''] (VNum (Num 0)),
      RawN [''d''] (VNum (Num 4))]"
    by (simp add: diff_def deepDiff_simps heap_trip_def heap_defs lookup_def validRef_def
        defaultOptions_def)
  from round_trip_plain [OF h1 h3 h4 h5 h7, of noArrays hash0] rg
  have "\<exists>h1. revertAll noArrays heap_trip (VRef 4)
            (rev (map toChange (diff hash0 defaultOptions heap_trip (VRef 0) (VRef 2)))) = Inr h1 \<and>
         sameValue 2 h1 (VRef 4) heap_trip (VRef 0) \<and> lookup h1 0 = lookup heap_trip 0"
    by auto
  with h1 h3 h4 h5 df show ?thesis by blast
qed
end
